theory Spec2Isabelle
  imports Complex_Main "HOL-Library.Word"
begin

unbundle bit_operations_syntax

section \<open>Python values used by the generator\<close>

type_synonym byte = "8 word"
type_synonym bytes = "byte list"

text \<open>The exceptions the script can raise: \<open>str.encode\<close> on a lone surrogate,
  \<open>struct.pack\<close> on an integer outside the format's range, and true division of
  integers whose quotient is too large for a float (or whose divisor is zero).
  \<open>then_res\<close> sequences two steps: the first exception raised ends the run.\<close>

datatype error = UnicodeEncodeError | StructError | OverflowError | ZeroDivisionError

definition then_res :: "error + 'a \<Rightarrow> ('a \<Rightarrow> error + 'b) \<Rightarrow> error + 'b" where
  "then_res m f = (case m of Inl e \<Rightarrow> Inl e | Inr x \<Rightarrow> f x)"

subsection \<open>\<open>struct.pack\<close> with little-endian formats\<close>

text \<open>\<open>le_bytes k v\<close>: the \<open>k\<close> low-order bytes of \<open>v\<close>, least significant first.\<close>

fun le_bytes :: "nat \<Rightarrow> nat \<Rightarrow> bytes" where
  "le_bytes 0 v = []"
| "le_bytes (Suc k) v = word_of_nat (v mod 256) # le_bytes k (v div 256)"

text \<open>\<open>le_nat\<close> reads a little-endian byte string back, as \<open>struct.unpack\<close> does for
  an unsigned format.\<close>

fun le_nat :: "bytes \<Rightarrow> nat" where
  "le_nat [] = 0"
| "le_nat (b # bs) = unat b + 256 * le_nat bs"

text \<open>\<open>struct.pack('<I', n)\<close>: raises \<open>struct.error\<close> unless \<open>0 \<le> n < 2^32\<close>.\<close>

definition pack_I :: "nat \<Rightarrow> error + bytes" where
  "pack_I n = (if n < 2 ^ 32 then Inr (le_bytes 4 n) else Inl StructError)"

text \<open>\<open>struct.pack('<i', n)\<close>: two's complement, raises unless \<open>-2^31 \<le> n < 2^31\<close>.\<close>

definition pack_i :: "int \<Rightarrow> error + bytes" where
  "pack_i n = (if - (2 ^ 31) \<le> n \<and> n < 2 ^ 31 then Inr (le_bytes 4 (nat (n mod 2 ^ 32)))
               else Inl StructError)"

text \<open>A Python float is carried as its IEEE-754 binary64 bit pattern.
  \<open>struct.pack('<d', x)\<close> writes the eight bytes of that pattern.\<close>

type_synonym f64 = "64 word"

definition pack_d :: "f64 \<Rightarrow> bytes" where
  "pack_d x = le_bytes 8 (unat x)"

subsection \<open>\<open>bytearray\<close> construction and slice assignment\<close>

definition bytearray :: "nat \<Rightarrow> bytes" where
  "bytearray n = replicate n 0"

text \<open>\<open>xs[a:b] = ys\<close> for non-negative \<open>a\<close>, \<open>b\<close>: the slice is clipped to the
  array and replaced by \<open>ys\<close>, whatever the length of \<open>ys\<close>.\<close>

definition slice_assign :: "bytes \<Rightarrow> nat \<Rightarrow> nat \<Rightarrow> bytes \<Rightarrow> bytes" where
  "slice_assign xs a b ys = take a xs @ ys @ drop (max a b) xs"

subsection \<open>\<open>binascii.crc32\<close>\<close>

text \<open>The CRC-32 of zlib: reflected polynomial \<open>0xEDB88320\<close>, initial register and
  final complement \<open>0xFFFFFFFF\<close>.\<close>

definition crc_shift :: "32 word \<Rightarrow> 32 word" where
  "crc_shift c = (if bit c 0 then drop_bit 1 c XOR 0xEDB88320 else drop_bit 1 c)"

definition crc_byte :: "32 word \<Rightarrow> byte \<Rightarrow> 32 word" where
  "crc_byte c b = (crc_shift ^^ 8) (c XOR ucast b)"

definition crc_update :: "32 word \<Rightarrow> bytes \<Rightarrow> 32 word" where
  "crc_update c bs = foldl crc_byte c bs"

definition crc32 :: "bytes \<Rightarrow> 32 word" where
  "crc32 bs = crc_update 0xFFFFFFFF bs XOR 0xFFFFFFFF"

subsection \<open>\<open>str.encode('utf-8')\<close>\<close>

text \<open>A Python \<open>str\<close> is a sequence of code points. The strict encoder raises on a
  surrogate; values above \<open>0x10FFFF\<close> are no code points and are rejected too.\<close>

type_synonym str = "nat list"

definition utf8_char :: "nat \<Rightarrow> error + bytes" where
  "utf8_char c =
     (if c < 0x80 then Inr [word_of_nat c]
      else if c < 0x800 then
        Inr [word_of_nat (0xC0 + c div 64), word_of_nat (0x80 + c mod 64)]
      else if 0xD800 \<le> c \<and> c < 0xE000 then Inl UnicodeEncodeError
      else if c < 0x10000 then
        Inr [word_of_nat (0xE0 + c div 4096), word_of_nat (0x80 + c div 64 mod 64),
             word_of_nat (0x80 + c mod 64)]
      else if c < 0x110000 then
        Inr [word_of_nat (0xF0 + c div 262144), word_of_nat (0x80 + c div 4096 mod 64),
             word_of_nat (0x80 + c div 64 mod 64), word_of_nat (0x80 + c mod 64)]
      else Inl UnicodeEncodeError)"

fun encode_utf8 :: "str \<Rightarrow> error + bytes" where
  "encode_utf8 [] = Inr []"
| "encode_utf8 (c # cs) =
     then_res (utf8_char c) (\<lambda>b. then_res (encode_utf8 cs) (\<lambda>bs. Inr (b @ bs)))"

subsection \<open>\<open>datetime\<close>, \<open>timedelta\<close> and true division\<close>

text \<open>An aware \<open>datetime\<close> in UTC, by its fields; Python only constructs one
  whose fields are in range (year 1 to 9999, a day of that month, and so on).
  \<open>toordinal\<close> is the proleptic Gregorian day number, computed as the standard
  library does.\<close>

record datetime =
  year :: int
  month :: int
  day :: int
  hour :: int
  minute :: int
  second :: int
  microsecond :: int

definition is_leap :: "int \<Rightarrow> bool" where
  "is_leap y = (y mod 4 = 0 \<and> (y mod 100 \<noteq> 0 \<or> y mod 400 = 0))"

definition days_before_year :: "int \<Rightarrow> int" where
  "days_before_year y = (let y1 = y - 1 in y1 * 365 + y1 div 4 - y1 div 100 + y1 div 400)"

definition days_in_month :: "int list" where
  "days_in_month = [31, 28, 31, 30, 31, 30, 31, 31, 30, 31, 30, 31]"

definition days_before_month :: "int \<Rightarrow> int \<Rightarrow> int" where
  "days_before_month y m =
     sum_list (take (nat (m - 1)) days_in_month) + (if m > 2 \<and> is_leap y then 1 else 0)"

definition toordinal :: "datetime \<Rightarrow> int" where
  "toordinal dt = days_before_year (year dt) + days_before_month (year dt) (month dt) + day dt"

text \<open>A \<open>timedelta\<close> is carried as its total number of microseconds, the quantity
  that \<open>total_seconds\<close> divides. \<open>datetime_sub\<close> is \<open>dt1 - dt2\<close> for two datetimes
  of the same time zone.\<close>

type_synonym timedelta = int

definition datetime_sub :: "datetime \<Rightarrow> datetime \<Rightarrow> timedelta" where
  "datetime_sub a b =
     (let days1 = toordinal a; days2 = toordinal b;
          secs1 = second a + minute a * 60 + hour a * 3600;
          secs2 = second b + minute b * 60 + hour b * 3600
      in ((days1 - days2) * 86400 + (secs1 - secs2)) * 1000000
           + (microsecond a - microsecond b))"

text \<open>The position of a datetime on the time line, in microseconds (day 1 is
  0001-01-01).\<close>

definition instant_us :: "datetime \<Rightarrow> int" where
  "instant_us dt =
     (((toordinal dt * 24 + hour dt) * 60 + minute dt) * 60 + second dt) * 1000000
       + microsecond dt"

text \<open>\<open>a / b\<close> on Python integers is the quotient rounded correctly (to nearest, ties to
  even) to a binary64 float. \<open>bit_length\<close> is \<open>int.bit_length\<close> on a non-negative
  integer; \<open>round_half_even a b\<close> is \<open>a / b\<close> rounded to the nearest integer.\<close>

function bit_length :: "int \<Rightarrow> int" where
  "bit_length n = (if n \<le> 0 then 0 else 1 + bit_length (n div 2))"
  by pat_completeness auto
termination
  by (relation "measure nat") auto

declare bit_length.simps [simp del]

definition round_half_even :: "int \<Rightarrow> int \<Rightarrow> int" where
  "round_half_even a b =
     (let q = a div b; r = a mod b
      in if 2 * r > b \<or> (2 * r = b \<and> odd q) then q + 1 else q)"

definition truediv :: "int \<Rightarrow> int \<Rightarrow> error + f64" where
  "truediv a b =
     (if b = 0 then Inl ZeroDivisionError
      else if a = 0 then Inr 0
      else
        let n = \<bar>a\<bar>; d = \<bar>b\<bar>;
            e0 = bit_length n - bit_length d;
            e = (if n * 2 ^ nat (- e0) < d * 2 ^ nat e0 then e0 - 1 else e0);
            ec = max e (- 1022);
            k = 52 - ec;
            m = round_half_even (n * 2 ^ nat k) (d * 2 ^ nat (- k));
            mag = (ec + 1022) * 2 ^ 52 + m
        in if mag \<ge> 2047 * 2 ^ 52 then Inl OverflowError
           else Inr (word_of_int (if (a < 0) \<noteq> (b < 0) then mag + 2 ^ 63 else mag)))"

text \<open>The real number that a finite binary64 bit pattern denotes: sign bit, eleven
  exponent bits (zero for subnormals), fifty-two fraction bits.\<close>

definition f64_value :: "f64 \<Rightarrow> real" where
  "f64_value w =
     (let s = uint w div 2 ^ 63; e = uint w div 2 ^ 52 mod 2 ^ 11; f = uint w mod 2 ^ 52
      in (if s = 0 then 1 else - 1)
         * (if e = 0 then of_int f * 2 powi (- 1074)
            else of_int (2 ^ 52 + f) * 2 powi (e - 1075)))"

definition total_seconds :: "timedelta \<Rightarrow> error + f64" where
  "total_seconds td = truediv td 1000000"

section \<open>The generator script\<close>

text \<open>\<open>datetime.datetime(y, m, d, tzinfo=datetime.timezone.utc)\<close>.\<close>

definition utc_date :: "int \<Rightarrow> int \<Rightarrow> int \<Rightarrow> datetime" where
  "utc_date y m d = \<lparr>year = y, month = m, day = d, hour = 0, minute = 0, second = 0,
                      microsecond = 0\<rparr>"


definition BASE_DATE :: datetime where
  "BASE_DATE = utc_date 2001 1 1"

definition get_timestamp :: "datetime \<Rightarrow> error + f64" where
  "get_timestamp dt = (let delta = datetime_sub dt BASE_DATE in total_seconds delta)"

text \<open>The exact number of seconds, possibly negative and fractional, from
  2001-01-01T00:00:00 UTC to a datetime.\<close>

definition seconds_since_2001 :: "datetime \<Rightarrow> real" where
  "seconds_since_2001 dt =
     real_of_int (instant_us dt - instant_us (utc_date 2001 1 1)) / 1000000"


text \<open>One element of \<open>entries_data\<close>: the keys \<open>'text'\<close> and \<open>'date'\<close>.\<close>

record entry_data =
  entry_text :: str
  entry_date :: datetime

definition SEGB :: bytes where
  "SEGB = [0x53, 0x45, 0x47, 0x42]"

subsection \<open>Version 1\<close>

text \<open>The body of the version 1 loop up to the padded \<open>entry\<close>.\<close>

definition entry_v1 :: "entry_data \<Rightarrow> error + bytes" where
  "entry_v1 ed =
     then_res (get_timestamp (entry_date ed)) (\<lambda>timestamp.
     then_res (encode_utf8 (entry_text ed)) (\<lambda>data_bytes.
     let data_length = length data_bytes;
         entry_header = bytearray 0x20
     in then_res (pack_I data_length) (\<lambda>p_length.
     let entry_header = slice_assign entry_header 0x00 0x04 p_length
     in then_res (pack_i 0x01) (\<lambda>p_state.
     let entry_header = slice_assign entry_header 0x04 0x08 p_state;
         entry_header = slice_assign entry_header 0x08 0x10 (pack_d timestamp);
         entry_header = slice_assign entry_header 0x10 0x18 (pack_d timestamp);
         crc = crc32 data_bytes AND 0xffffffff
     in then_res (pack_I (unat crc)) (\<lambda>p_crc.
     let entry_header = slice_assign entry_header 0x18 0x1C p_crc;
         entry_header = slice_assign entry_header 0x1C 0x20 (replicate 4 0);
         entry = entry_header @ data_bytes;
         padding_needed = (8 - (length entry mod 8)) mod 8;
         entry = entry @ replicate padding_needed 0
     in Inr entry)))))"

text \<open>The loop over \<open>entries_data\<close>, on the state \<open>(entries_v1, current_offset_v1)\<close>.\<close>

fun loop_v1 :: "entry_data list \<Rightarrow> bytes list \<times> nat \<Rightarrow> error + bytes list \<times> nat" where
  "loop_v1 [] st = Inr st"
| "loop_v1 (ed # rest) (entries_v1, current_offset_v1) =
     then_res (entry_v1 ed) (\<lambda>entry.
       loop_v1 rest (entries_v1 @ [entry], current_offset_v1 + length entry))"

text \<open>The bytes written to \<open>segb_version1.bin\<close>.\<close>

definition segb_version1 :: "entry_data list \<Rightarrow> error + bytes" where
  "segb_version1 entries_data =
     (let header_v1 = bytearray 0x38;
          header_v1 = slice_assign header_v1 0x34 0x38 SEGB
      in then_res (loop_v1 entries_data ([], 0x38)) (\<lambda>(entries_v1, current_offset_v1).
         then_res (pack_I current_offset_v1) (\<lambda>p_end.
         let header_v1 = slice_assign header_v1 0x00 0x04 p_end
         in Inr (header_v1 @ concat entries_v1))))"

subsection \<open>Version 2\<close>

record entry_info =
  offset :: nat
  state :: int
  timestamp :: f64

text \<open>The body of the version 2 loop: the padded \<open>entry\<close> and its \<open>timestamp\<close>.\<close>

definition entry_v2 :: "entry_data \<Rightarrow> error + bytes \<times> f64" where
  "entry_v2 ed =
     then_res (get_timestamp (entry_date ed)) (\<lambda>timestamp.
     then_res (encode_utf8 (entry_text ed)) (\<lambda>data_bytes.
     let crc = crc32 data_bytes AND 0xffffffff
     in then_res (pack_I (unat crc)) (\<lambda>p_crc.
     let entry = p_crc @ replicate 4 0 @ data_bytes;
         padding_needed = (4 - (length entry mod 4)) mod 4;
         entry = entry @ replicate padding_needed 0
     in Inr (entry, timestamp))))"

text \<open>The loop, on the state \<open>(entries_v2, entry_offsets_v2, current_offset_v2)\<close>.\<close>

fun loop_v2 :: "entry_data list \<Rightarrow> bytes list \<times> entry_info list \<times> nat
                  \<Rightarrow> error + bytes list \<times> entry_info list \<times> nat" where
  "loop_v2 [] st = Inr st"
| "loop_v2 (ed # rest) (entries_v2, entry_offsets_v2, current_offset_v2) =
     then_res (entry_v2 ed) (\<lambda>(entry, ts).
       loop_v2 rest
         (entries_v2 @ [entry],
          entry_offsets_v2 @ [\<lparr>offset = current_offset_v2, state = 0x01, timestamp = ts\<rparr>],
          current_offset_v2 + length entry))"

text \<open>The trailer loop, on the growing \<open>trailer_v2\<close>.\<close>

fun build_trailer :: "entry_info list \<Rightarrow> bytes \<Rightarrow> error + bytes" where
  "build_trailer [] trailer_v2 = Inr trailer_v2"
| "build_trailer (entry_info # rest) trailer_v2 =
     then_res (pack_I (offset entry_info)) (\<lambda>p_offset.
     then_res (pack_i (state entry_info)) (\<lambda>p_state.
       build_trailer rest
         (trailer_v2 @ p_offset @ p_state @ pack_d (timestamp entry_info))))"

text \<open>The bytes written to \<open>segb_version2.bin\<close>; \<open>now\<close> is the value of
  \<open>datetime.datetime.now(tz=utc)\<close>.\<close>

definition segb_version2 :: "datetime \<Rightarrow> entry_data list \<Rightarrow> error + bytes" where
  "segb_version2 now entries_data =
     (let header_v2 = bytearray 0x20;
          header_v2 = slice_assign header_v2 0x00 0x04 SEGB;
          entry_count = length entries_data
      in then_res (pack_I entry_count) (\<lambda>p_count.
         let header_v2 = slice_assign header_v2 0x04 0x08 p_count
         in then_res (get_timestamp now) (\<lambda>creation_timestamp.
         let header_v2 = slice_assign header_v2 0x08 0x10 (pack_d creation_timestamp);
             header_v2 = slice_assign header_v2 0x10 0x20 (replicate 16 0)
         in then_res (loop_v2 entries_data ([], [], 0))
              (\<lambda>(entries_v2, entry_offsets_v2, current_offset_v2).
            then_res (build_trailer entry_offsets_v2 []) (\<lambda>trailer_v2.
              Inr (header_v2 @ concat entries_v2 @ trailer_v2))))))"

subsection \<open>The whole script\<close>

text \<open>A run writes the version 1 file, then the version 2 file; an exception ends it
  and leaves the files written so far. The result is the list of files written, by name,
  and the exception, if any.\<close>

definition generate_test_files ::
  "datetime \<Rightarrow> entry_data list \<Rightarrow> (string \<times> bytes) list \<times> error option" where
  "generate_test_files now entries_data =
     (case segb_version1 entries_data of
        Inl e \<Rightarrow> ([], Some e)
      | Inr f1 \<Rightarrow>
          (case segb_version2 now entries_data of
             Inl e \<Rightarrow> ([(''segb_version1.bin'', f1)], Some e)
           | Inr f2 \<Rightarrow> ([(''segb_version1.bin'', f1), (''segb_version2.bin'', f2)], None)))"

text \<open>The sample \<open>entries_data\<close> of the script.\<close>

definition str_of :: "string \<Rightarrow> str" where
  "str_of s = map of_char s"

definition entries_data :: "entry_data list" where
  "entries_data =
     [\<lparr>entry_text = str_of ''Here's to the crazy ones.'', entry_date = utc_date 2007 1 9\<rparr>,
      \<lparr>entry_text = str_of ''The misfits.'', entry_date = utc_date 2007 6 29\<rparr>,
      \<lparr>entry_text = str_of ''The rebels.'', entry_date = utc_date 2011 10 5\<rparr>]"


section \<open>Layouts, for stating what the script writes\<close>

text \<open>The bytes of a version 1 entry with timestamp \<open>ts\<close> and data \<open>data\<close>, and of
  a version 2 entry with data \<open>data\<close>, field by field.\<close>

definition entry_bytes_v1 :: "f64 \<Rightarrow> bytes \<Rightarrow> bytes" where
  "entry_bytes_v1 ts data =
     le_bytes 4 (length data) @ [1, 0, 0, 0] @ pack_d ts @ pack_d ts
       @ le_bytes 4 (unat (crc32 data)) @ replicate 4 0 @ data
       @ replicate ((8 - (32 + length data) mod 8) mod 8) 0"

definition entry_bytes_v2 :: "bytes \<Rightarrow> bytes" where
  "entry_bytes_v2 data =
     le_bytes 4 (unat (crc32 data)) @ replicate 4 0 @ data
       @ replicate ((4 - (8 + length data) mod 4) mod 4) 0"

text \<open>The starting offsets of consecutive blocks of the given sizes, the first one
  at \<open>off\<close>.\<close>

fun offsets_from :: "nat \<Rightarrow> nat list \<Rightarrow> nat list" where
  "offsets_from off [] = []"
| "offsets_from off (n # ns) = off # offsets_from (off + n) ns"

text \<open>One 16-byte trailer record.\<close>

definition trailer_record :: "entry_info \<Rightarrow> bytes" where
  "trailer_record i =
     le_bytes 4 (offset i) @ le_bytes 4 (nat (state i mod 2 ^ 32)) @ pack_d (timestamp i)"

text \<open>The \<open>entry_offsets_v2\<close> that the version 2 loop collects for entries \<open>rs\<close>
  (bytes and timestamp), the first one starting at \<open>off\<close>.\<close>

definition infos_from :: "nat \<Rightarrow> (bytes \<times> f64) list \<Rightarrow> entry_info list" where
  "infos_from off rs =
     map (\<lambda>(p, r). \<lparr>offset = p, state = 0x01, timestamp = snd r\<rparr>)
       (zip (offsets_from off (map (\<lambda>r. length (fst r)) rs)) rs)"

text \<open>\<open>segment xs a n\<close> is the slice \<open>xs[a : a + n]\<close>.\<close>

definition segment :: "'a list \<Rightarrow> nat \<Rightarrow> nat \<Rightarrow> 'a list" where
  "segment xs a n = take n (drop a xs)"

text \<open>The offset field of trailer record \<open>i\<close>, read back from a version 2 file
  \<open>out\<close> of \<open>n\<close> records: the trailer is the last \<open>16 * n\<close> bytes.\<close>

definition trailer_start :: "bytes \<Rightarrow> nat \<Rightarrow> nat" where
  "trailer_start out n = length out - 16 * n"

definition trailer_offset :: "bytes \<Rightarrow> nat \<Rightarrow> nat \<Rightarrow> nat" where
  "trailer_offset out n i = le_nat (segment out (trailer_start out n + 16 * i) 4)"

section \<open>Decoding\<close>

text \<open>The script only writes files. The decoders below are what the specification
  describes for reading them back.\<close>

datatype format_error =
  BadMagic | Truncated | ChecksumMismatch | UnknownVersion | InconsistentTrailer

record decoded_record =
  rec_data :: bytes
  rec_state :: int
  rec_timestamp_primary :: f64
  rec_timestamp_secondary :: "f64 option"
  rec_checksum :: nat
  rec_valid :: bool

text \<open>\<open>struct.unpack\<close> for \<open><i\<close> and \<open><d\<close>.\<close>

definition le_int32 :: "bytes \<Rightarrow> int" where
  "le_int32 bs = (let v = int (le_nat bs) in if v < 2 ^ 31 then v else v - 2 ^ 32)"

definition unpack_d :: "bytes \<Rightarrow> f64" where
  "unpack_d bs = word_of_nat (le_nat bs)"

text \<open>Modelled from the spec: the version 1 decoder (section 4.2), which the
  repository does not contain. Starting at \<open>0x38\<close> it reads a 32-byte entry header, takes
  \<open>length\<close> data bytes, compares their CRC-32 with the stored checksum (a mismatch flags
  the record and does not abort), and advances past the data and the padding to the next
  multiple of 8; it stops when the offset reaches \<open>end_offset\<close> and fails with
  \<open>Truncated\<close> when the buffer ends before that.\<close>

function decode_entries_v1 :: "bytes \<Rightarrow> nat \<Rightarrow> nat \<Rightarrow> format_error + decoded_record list" where
  "decode_entries_v1 buf end_offset off =
     (if end_offset \<le> off then Inr []
      else if length buf < off + 32 then Inl Truncated
      else if length buf < off + 32 + le_nat (segment buf off 4) then Inl Truncated
      else
        (case decode_entries_v1 buf end_offset
                (off + 32 + le_nat (segment buf off 4)
                   + (8 - (off + 32 + le_nat (segment buf off 4)) mod 8) mod 8) of
           Inl e \<Rightarrow> Inl e
         | Inr rest \<Rightarrow>
             Inr (\<lparr>rec_data = segment buf (off + 32) (le_nat (segment buf off 4)),
                   rec_state = le_int32 (segment buf (off + 4) 4),
                   rec_timestamp_primary = unpack_d (segment buf (off + 8) 8),
                   rec_timestamp_secondary = Some (unpack_d (segment buf (off + 16) 8)),
                   rec_checksum = le_nat (segment buf (off + 24) 4),
                   rec_valid =
                     (unat (crc32 (segment buf (off + 32) (le_nat (segment buf off 4))))
                        = le_nat (segment buf (off + 24) 4))\<rparr> # rest)))"
  by pat_completeness auto
termination
  by (relation "measure (\<lambda>(buf, end_offset, off). end_offset - off)") auto

declare decode_entries_v1.simps [simp del]

definition decode_v1 :: "bytes \<Rightarrow> format_error + decoded_record list" where
  "decode_v1 buf =
     (if length buf < 0x38 \<or> segment buf 0x34 4 \<noteq> SEGB then Inl BadMagic
      else decode_entries_v1 buf (le_nat (segment buf 0x00 4)) 0x38)"

text \<open>Modelled from the spec: the version 2 decoder (section 4.3), which the
  repository does not contain. The trailer is the last \<open>entry_count * 16\<close> bytes and the
  data region lies between the header and the trailer. The entry of a trailer record
  starts at its offset and ends at the next record's offset, or at the end of the data
  region for the last one. The data are what remains of that gap without the 8 bytes of
  checksum and reserved field and without the trailing padding: zero bytes at the end,
  at most three, since entries are aligned to 4.\<close>

fun strip_zeros :: "nat \<Rightarrow> bytes \<Rightarrow> bytes" where
  "strip_zeros 0 xs = xs"
| "strip_zeros (Suc k) xs =
     (if xs \<noteq> [] \<and> last xs = 0 then strip_zeros k (butlast xs) else xs)"

definition strip_padding :: "bytes \<Rightarrow> bytes" where
  "strip_padding xs = strip_zeros 3 xs"

definition decode_entry_v2 :: "bytes \<Rightarrow> entry_info \<Rightarrow> nat \<Rightarrow> format_error + decoded_record" where
  "decode_entry_v2 region info next =
     (if next < offset info + 8 \<or> length region < next then Inl InconsistentTrailer
      else
        let entry = segment region (offset info) (next - offset info);
            data = strip_padding (drop 8 entry)
        in Inr \<lparr>rec_data = data,
                 rec_state = state info,
                 rec_timestamp_primary = timestamp info,
                 rec_timestamp_secondary = None,
                 rec_checksum = le_nat (take 4 entry),
                 rec_valid = (unat (crc32 data) = le_nat (take 4 entry))\<rparr>)"

fun decode_entries_v2 :: "bytes \<Rightarrow> entry_info list \<Rightarrow> format_error + decoded_record list" where
  "decode_entries_v2 region [] = Inr []"
| "decode_entries_v2 region [info] =
     (case decode_entry_v2 region info (length region) of
        Inl e \<Rightarrow> Inl e | Inr r \<Rightarrow> Inr [r])"
| "decode_entries_v2 region (info # info' # rest) =
     (case decode_entry_v2 region info (offset info') of
        Inl e \<Rightarrow> Inl e
      | Inr r \<Rightarrow>
          (case decode_entries_v2 region (info' # rest) of
             Inl e \<Rightarrow> Inl e | Inr rs \<Rightarrow> Inr (r # rs)))"

definition read_trailer_record :: "bytes \<Rightarrow> entry_info" where
  "read_trailer_record r =
     \<lparr>offset = le_nat (segment r 0 4), state = le_int32 (segment r 4 4),
      timestamp = unpack_d (segment r 8 8)\<rparr>"

definition decode_v2 :: "bytes \<Rightarrow> format_error + decoded_record list" where
  "decode_v2 buf =
     (if length buf < 0x20 then Inl Truncated
      else if segment buf 0x00 4 \<noteq> SEGB then Inl BadMagic
      else
        let entry_count = le_nat (segment buf 0x04 4)
        in if length buf < 0x20 + entry_count * 16 then Inl Truncated
           else
             let trailer_at = length buf - entry_count * 16;
                 region = segment buf 0x20 (trailer_at - 0x20);
                 infos = map (\<lambda>i. read_trailer_record (segment buf (trailer_at + 16 * i) 16))
                           [0 ..< entry_count]
             in decode_entries_v2 region infos)"

text \<open>Encoding followed by decoding: the data of the decoded records, when both steps
  succeed.\<close>

definition round_trip_v1 :: "entry_data list \<Rightarrow> bytes list option" where
  "round_trip_v1 es =
     (case segb_version1 es of
        Inl e \<Rightarrow> None
      | Inr out \<Rightarrow> (case decode_v1 out of Inl e \<Rightarrow> None | Inr recs \<Rightarrow> Some (map rec_data recs)))"

definition round_trip_v2 :: "datetime \<Rightarrow> entry_data list \<Rightarrow> bytes list option" where
  "round_trip_v2 now es =
     (case segb_version2 now es of
        Inl e \<Rightarrow> None
      | Inr out \<Rightarrow> (case decode_v2 out of Inl e \<Rightarrow> None | Inr recs \<Rightarrow> Some (map rec_data recs)))"

text \<open>The record that the version 1 decoder yields for an entry with timestamp and
  data \<open>x\<close>, and the data that the version 2 decoder yields for an entry with data
  \<open>d\<close>.\<close>

definition record_v1 :: "f64 \<times> bytes \<Rightarrow> decoded_record" where
  "record_v1 x =
     \<lparr>rec_data = snd x, rec_state = 1, rec_timestamp_primary = fst x,
      rec_timestamp_secondary = Some (fst x), rec_checksum = unat (crc32 (snd x)),
      rec_valid = True\<rparr>"

definition data_read_v2 :: "bytes \<Rightarrow> bytes" where
  "data_read_v2 d = strip_padding (d @ replicate ((4 - (8 + length d) mod 4) mod 4) 0)"

definition record_v2 :: "bytes \<times> f64 \<Rightarrow> decoded_record" where
  "record_v2 r =
     \<lparr>rec_data = strip_padding (drop 8 (fst r)), rec_state = 1,
      rec_timestamp_primary = snd r, rec_timestamp_secondary = None,
      rec_checksum = le_nat (take 4 (fst r)),
      rec_valid = (unat (crc32 (strip_padding (drop 8 (fst r)))) = le_nat (take 4 (fst r)))\<rparr>"

section \<open>Basic facts about the Python primitives\<close>

lemma then_res_Inr [simp]: "then_res (Inr x) f = f x"
  by (simp add: then_res_def)

lemma then_res_Inl [simp]: "then_res (Inl e) f = Inl e"
  by (simp add: then_res_def)

lemma then_res_eq_Inr: "then_res m f = Inr y \<longleftrightarrow> (\<exists>x. m = Inr x \<and> f x = Inr y)"
  by (cases m) simp_all

lemma length_le_bytes [simp]: "length (le_bytes k v) = k"
  by (induction k arbitrary: v) simp_all

lemma le_nat_le_bytes: "le_nat (le_bytes k v) = v mod 256 ^ k"
proof (induction k arbitrary: v)
  case 0
  then show ?case by simp
next
  case (Suc k)
  have "unat (word_of_nat (v mod 256) :: byte) = v mod 256"
    by (simp add: unat_of_nat)
  then have "le_nat (le_bytes (Suc k) v) = v mod 256 + 256 * (v div 256 mod 256 ^ k)"
    by (simp add: Suc.IH)
  also have "\<dots> = v mod 256 ^ Suc k"
    by (simp add: mod_mult2_eq)
  finally show ?case .
qed

lemma le_bytes_4:
  "le_bytes 4 v = [word_of_nat (v mod 256), word_of_nat (v div 256 mod 256),
     word_of_nat (v div 256 div 256 mod 256), word_of_nat (v div 256 div 256 div 256 mod 256)]"
proof -
  have "(4::nat) = Suc (Suc (Suc (Suc 0)))" by simp
  then show ?thesis by (simp only: le_bytes.simps)
qed

lemma le_bytes_8:
  "le_bytes 8 v = le_bytes 4 v @ le_bytes 4 (v div 256 div 256 div 256 div 256)"
proof -
  have "(8::nat) = Suc (Suc (Suc (Suc (Suc (Suc (Suc (Suc 0)))))))" by simp
  then show ?thesis unfolding le_bytes_4 by (simp only: le_bytes.simps append.simps)
qed

lemma pack_I_eq_Inr: "pack_I n = Inr p \<longleftrightarrow> n < 2 ^ 32 \<and> p = le_bytes 4 n"
  by (auto simp: pack_I_def)

lemma pack_I_unat: "pack_I (unat (w :: 32 word)) = Inr (le_bytes 4 (unat w))"
proof -
  have "unat w < 2 ^ 32" using unsigned_less [of w] by simp
  then show ?thesis by (simp add: pack_I_def)
qed

lemma pack_i_1: "pack_i 1 = Inr [1, 0, 0, 0]"
  by (simp add: pack_i_def le_bytes_4)

lemma length_pack_d [simp]: "length (pack_d x) = 8"
  by (simp add: pack_d_def)

lemma le_nat_pack_d: "le_nat (pack_d x) = unat x"
proof -
  have "unat x < 2 ^ 64" using unsigned_less [of x] by simp
  then show ?thesis by (simp add: pack_d_def le_nat_le_bytes)
qed

lemma crc_and_mask: "(c :: 32 word) AND 0xffffffff = c"
proof -
  have e: "(0xffffffff :: 32 word) = - 1" by simp
  show ?thesis by (simp only: e and.right_neutral)
qed


section \<open>The structure of the entries\<close>

lemma slice_assign_fill:
  assumes "length pre = a" "b = a + length ys" "length ys \<le> n"
  shows "slice_assign (pre @ replicate n 0) a b ys = pre @ ys @ replicate (n - length ys) 0"
  using assms by (simp add: slice_assign_def)

lemma entry_header_v1_layout:
  assumes l: "length p1 = 4" "length p2 = 4" "length d1 = 8" "length d2 = 8" "length p3 = 4"
  shows "slice_assign (slice_assign (slice_assign (slice_assign (slice_assign (slice_assign
           (bytearray 0x20) 0x00 0x04 p1) 0x04 0x08 p2) 0x08 0x10 d1) 0x10 0x18 d2)
           0x18 0x1C p3) 0x1C 0x20 (replicate 4 0)
         = p1 @ p2 @ d1 @ d2 @ p3 @ replicate 4 0"
proof -
  have h1: "slice_assign (bytearray 0x20) 0x00 0x04 p1 = p1 @ replicate 28 0"
    using slice_assign_fill [of "[]" 0 4 p1 32] l by (simp add: bytearray_def)
  have h2: "slice_assign (p1 @ replicate 28 0) 0x04 0x08 p2 = (p1 @ p2) @ replicate 24 0"
    using slice_assign_fill [of p1 4 8 p2 28] l by simp
  have h3: "slice_assign ((p1 @ p2) @ replicate 24 0) 0x08 0x10 d1
              = (p1 @ p2 @ d1) @ replicate 16 0"
    using slice_assign_fill [of "p1 @ p2" 8 16 d1 24] l by simp
  have h4: "slice_assign ((p1 @ p2 @ d1) @ replicate 16 0) 0x10 0x18 d2
              = (p1 @ p2 @ d1 @ d2) @ replicate 8 0"
    using slice_assign_fill [of "p1 @ p2 @ d1" 16 24 d2 16] l by simp
  have h5: "slice_assign ((p1 @ p2 @ d1 @ d2) @ replicate 8 0) 0x18 0x1C p3
              = (p1 @ p2 @ d1 @ d2 @ p3) @ replicate 4 0"
    using slice_assign_fill [of "p1 @ p2 @ d1 @ d2" 24 28 p3 8] l by simp
  have h6: "slice_assign ((p1 @ p2 @ d1 @ d2 @ p3) @ replicate 4 0) 0x1C 0x20 (replicate 4 0)
              = p1 @ p2 @ d1 @ d2 @ p3 @ replicate 4 0"
    using slice_assign_fill [of "p1 @ p2 @ d1 @ d2 @ p3" 28 32 "replicate 4 0" 4] l by simp
  show ?thesis
    by (simp only: h1 h2 h3 h4 h5 h6)
qed


lemma entry_v1_unfold:
  "entry_v1 ed =
     then_res (get_timestamp (entry_date ed)) (\<lambda>ts.
     then_res (encode_utf8 (entry_text ed)) (\<lambda>data.
       if length data < 2 ^ 32 then Inr (entry_bytes_v1 ts data) else Inl StructError))"
proof -
  have body: "then_res (pack_I (length data)) (\<lambda>p_length.
       let entry_header = slice_assign (bytearray 0x20) 0x00 0x04 p_length
       in then_res (pack_i 0x01) (\<lambda>p_state.
       let entry_header = slice_assign entry_header 0x04 0x08 p_state;
           entry_header = slice_assign entry_header 0x08 0x10 (pack_d ts);
           entry_header = slice_assign entry_header 0x10 0x18 (pack_d ts);
           crc = crc32 data AND 0xffffffff
       in then_res (pack_I (unat crc)) (\<lambda>p_crc.
       let entry_header = slice_assign entry_header 0x18 0x1C p_crc;
           entry_header = slice_assign entry_header 0x1C 0x20 (replicate 4 0);
           entry = entry_header @ data;
           padding_needed = (8 - (length entry mod 8)) mod 8;
           entry = entry @ replicate padding_needed 0
       in Inr entry)))
     = (if length data < 2 ^ 32 then Inr (entry_bytes_v1 ts data) else Inl StructError)"
    for ts data
  proof (cases "length data < 2 ^ 32")
    case True
    have hdr: "slice_assign (slice_assign (slice_assign (slice_assign (slice_assign
           (slice_assign (bytearray 0x20) 0x00 0x04 (le_bytes 4 (length data)))
             0x04 0x08 [1, 0, 0, 0]) 0x08 0x10 (pack_d ts)) 0x10 0x18 (pack_d ts))
             0x18 0x1C (le_bytes 4 (unat (crc32 data)))) 0x1C 0x20 (replicate 4 0)
        = le_bytes 4 (length data) @ [1, 0, 0, 0] @ pack_d ts @ pack_d ts
            @ le_bytes 4 (unat (crc32 data)) @ replicate 4 0"
      by (rule entry_header_v1_layout) simp_all
    have p: "pack_I (length data) = Inr (le_bytes 4 (length data))"
      using True by (simp add: pack_I_def)
    show ?thesis
      unfolding Let_def p then_res_Inr pack_i_1 crc_and_mask pack_I_unat hdr
      using True by (simp add: entry_bytes_v1_def)
  next
    case False
    then show ?thesis by (simp add: pack_I_def)
  qed
  show ?thesis
    unfolding entry_v1_def Let_def body [unfolded Let_def] ..
qed


lemma entry_v2_unfold:
  "entry_v2 ed =
     then_res (get_timestamp (entry_date ed)) (\<lambda>ts.
     then_res (encode_utf8 (entry_text ed)) (\<lambda>data. Inr (entry_bytes_v2 data, ts)))"
  unfolding entry_v2_def Let_def crc_and_mask pack_I_unat then_res_Inr
  by (simp add: entry_bytes_v2_def)

lemma loop_v1_eq_Inr:
  "loop_v1 es (acc, off) = Inr (ents, off') \<longleftrightarrow>
     (\<exists>bs. list_all2 (\<lambda>e b. entry_v1 e = Inr b) es bs
        \<and> ents = acc @ bs \<and> off' = off + sum_list (map length bs))"
proof (induction es arbitrary: acc off)
  case Nil
  then show ?case by auto
next
  case (Cons e es)
  show ?case
    by (auto simp: then_res_eq_Inr Cons.IH list_all2_Cons1)
qed

lemma header_v1_layout:
  assumes "length p = 4"
  shows "slice_assign (slice_assign (bytearray 0x38) 0x34 0x38 SEGB) 0x00 0x04 p
           = p @ replicate 48 0 @ SEGB"
  using assms by (simp add: slice_assign_def bytearray_def SEGB_def)

lemma segb_version1_eq_Inr:
  "segb_version1 es = Inr out \<longleftrightarrow>
     (\<exists>bs. list_all2 (\<lambda>e b. entry_v1 e = Inr b) es bs
        \<and> 0x38 + sum_list (map length bs) < 2 ^ 32
        \<and> out = le_bytes 4 (0x38 + sum_list (map length bs)) @ replicate 48 0 @ SEGB
                  @ concat bs)"
  unfolding segb_version1_def Let_def then_res_eq_Inr
  by (auto simp: then_res_eq_Inr loop_v1_eq_Inr pack_I_eq_Inr header_v1_layout)


lemma infos_from_Nil [simp]: "infos_from off [] = []"
  by (simp add: infos_from_def)

lemma infos_from_Cons:
  "infos_from off (r # rs) =
     \<lparr>offset = off, state = 1, timestamp = snd r\<rparr> # infos_from (off + length (fst r)) rs"
  by (simp add: infos_from_def)

lemma loop_v2_eq_Inr:
  "loop_v2 es (acc, infos, off) = Inr (ents, infos', off') \<longleftrightarrow>
     (\<exists>rs. list_all2 (\<lambda>e r. entry_v2 e = Inr r) es rs
        \<and> ents = acc @ map fst rs
        \<and> infos' = infos @ infos_from off rs
        \<and> off' = off + sum_list (map (\<lambda>r. length (fst r)) rs))"
proof (induction es arbitrary: acc infos off)
  case Nil
  then show ?case by auto
next
  case (Cons e es)
  show ?case
  proof
    assume "loop_v2 (e # es) (acc, infos, off) = Inr (ents, infos', off')"
    then obtain b ts rs where e: "entry_v2 e = Inr (b, ts)"
      and rs: "list_all2 (\<lambda>e r. entry_v2 e = Inr r) es rs"
      and r: "ents = (acc @ [b]) @ map fst rs"
         "infos' = (infos @ [\<lparr>offset = off, state = 1, timestamp = ts\<rparr>])
                     @ infos_from (off + length b) rs"
         "off' = off + length b + sum_list (map (\<lambda>r. length (fst r)) rs)"
      by (auto simp: then_res_eq_Inr Cons.IH)
    show "\<exists>rs. list_all2 (\<lambda>e r. entry_v2 e = Inr r) (e # es) rs
        \<and> ents = acc @ map fst rs
        \<and> infos' = infos @ infos_from off rs
        \<and> off' = off + sum_list (map (\<lambda>r. length (fst r)) rs)"
      using e rs r by (intro exI [of _ "(b, ts) # rs"]) (simp add: infos_from_Cons)
  next
    assume "\<exists>rs. list_all2 (\<lambda>e r. entry_v2 e = Inr r) (e # es) rs
        \<and> ents = acc @ map fst rs
        \<and> infos' = infos @ infos_from off rs
        \<and> off' = off + sum_list (map (\<lambda>r. length (fst r)) rs)"
    then show "loop_v2 (e # es) (acc, infos, off) = Inr (ents, infos', off')"
      by (auto simp: then_res_eq_Inr Cons.IH list_all2_Cons1 infos_from_Cons)
  qed
qed

lemma build_trailer_eq_Inr:
  "build_trailer infos acc = Inr t \<longleftrightarrow>
     (\<forall>i \<in> set infos. offset i < 2 ^ 32 \<and> - (2 ^ 31) \<le> state i \<and> state i < 2 ^ 31)
       \<and> t = acc @ concat (map trailer_record infos)"
proof (induction infos arbitrary: acc)
  case Nil
  then show ?case by auto
next
  case (Cons i infos)
  show ?case
    by (auto simp: then_res_eq_Inr Cons.IH pack_I_eq_Inr pack_i_def trailer_record_def)
qed

lemma header_v2_layout:
  assumes "length p = 4" "length d = 8"
  shows "slice_assign (slice_assign (slice_assign (slice_assign (bytearray 0x20)
           0x00 0x04 SEGB) 0x04 0x08 p) 0x08 0x10 d) 0x10 0x20 (replicate 16 0)
           = SEGB @ p @ d @ replicate 16 0"
  using assms by (simp add: slice_assign_def bytearray_def SEGB_def)


lemma state_infos_from: "i \<in> set (infos_from off rs) \<Longrightarrow> state i = 1"
  by (induction rs arbitrary: off) (auto simp: infos_from_Cons)

lemma segb_version2_eq_Inr:
  "segb_version2 now es = Inr out \<longleftrightarrow>
     (\<exists>cts rs. length es < 2 ^ 32 \<and> get_timestamp now = Inr cts
        \<and> list_all2 (\<lambda>e r. entry_v2 e = Inr r) es rs
        \<and> (\<forall>i \<in> set (infos_from 0 rs). offset i < 2 ^ 32)
        \<and> out = SEGB @ le_bytes 4 (length es) @ pack_d cts @ replicate 16 0
                  @ concat (map fst rs) @ concat (map trailer_record (infos_from 0 rs)))"
  unfolding segb_version2_def Let_def
  apply (auto simp: then_res_eq_Inr loop_v2_eq_Inr build_trailer_eq_Inr pack_I_eq_Inr
        header_v2_layout state_infos_from)
  subgoal for cts rs
    by (rule exI [of _ "map fst rs"], rule exI [of _ "infos_from 0 rs"])
      (auto simp: state_infos_from)
  done


section \<open>Slices of concatenations\<close>

lemma segment_append_left:
  "a + n \<le> length xs \<Longrightarrow> segment (xs @ ys) a n = segment xs a n"
  by (simp add: segment_def)

lemma segment_append_right:
  "length xs \<le> a \<Longrightarrow> segment (xs @ ys) a n = segment ys (a - length xs) n"
  by (simp add: segment_def)

lemma segment_prefix: "segment (xs @ ys) 0 (length xs) = xs"
  by (simp add: segment_def)

lemma segment_all: "segment xs 0 (length xs) = xs"
  by (simp add: segment_def)

lemma length_concat_sum: "length (concat bs) = sum_list (map length bs)"
  by (induction bs) simp_all

lemma concat_segment:
  "i < length bs \<Longrightarrow>
     segment (concat bs) (sum_list (map length (take i bs))) (length (bs ! i)) = bs ! i"
proof (induction bs arbitrary: i)
  case Nil
  then show ?case by simp
next
  case (Cons b bs)
  show ?case
  proof (cases i)
    case 0
    then show ?thesis by (simp add: segment_def)
  next
    case (Suc j)
    with Cons.prems have "j < length bs" by simp
    from Cons.IH [OF this] show ?thesis
      using Suc by (simp add: segment_def)
  qed
qed

lemma sum_list_take_le:
  "sum_list (take i (ns :: nat list)) \<le> sum_list ns"
proof -
  have "sum_list ns = sum_list (take i ns) + sum_list (drop i ns)"
    by (metis append_take_drop_id sum_list_append)
  then show ?thesis by simp
qed

lemma sum_list_take_Suc:
  "i < length (ns :: nat list) \<Longrightarrow> sum_list (take (Suc i) ns) = sum_list (take i ns) + ns ! i"
  by (simp add: take_Suc_conv_app_nth)

lemma sum_list_const:
  "(\<forall>x \<in> set xs. f x = (c :: nat)) \<Longrightarrow> sum_list (map f xs) = c * length xs"
  by (induction xs) simp_all

lemma length_offsets_from [simp]: "length (offsets_from off ns) = length ns"
  by (induction ns arbitrary: off) simp_all

lemma offsets_from_nth:
  "i < length ns \<Longrightarrow> offsets_from off ns ! i = off + sum_list (take i ns)"
proof (induction ns arbitrary: off i)
  case Nil
  then show ?case by simp
next
  case (Cons n ns)
  then show ?case by (cases i) simp_all
qed

lemma length_infos_from [simp]: "length (infos_from off rs) = length rs"
  by (simp add: infos_from_def)

lemma infos_from_nth:
  "i < length rs \<Longrightarrow>
     infos_from off rs ! i =
       \<lparr>offset = off + sum_list (map (\<lambda>r. length (fst r)) (take i rs)), state = 1,
        timestamp = snd (rs ! i)\<rparr>"
  by (simp add: infos_from_def offsets_from_nth take_map)

lemma length_trailer_record [simp]: "length (trailer_record i) = 16"
  by (simp add: trailer_record_def)

lemma chunks_segment:
  assumes "\<forall>x \<in> set xs. length x = c" "i < length xs"
  shows "segment (concat xs) (c * i) c = xs ! i"
proof -
  have "\<forall>x \<in> set (take i xs). length x = c"
    using assms(1) by (meson in_set_takeD)
  then have "sum_list (map length (take i xs)) = c * i"
    using sum_list_const [of "take i xs" length c] assms(2) by simp
  moreover have "length (xs ! i) = c" using assms by simp
  ultimately show ?thesis using concat_segment [OF assms(2)] by simp
qed


section \<open>The script on its own sample data\<close>

lemma funpow8: "(f ^^ 8) x = f (f (f (f (f (f (f (f x)))))))"
  by (simp add: numeral_eq_Suc)

lemmas crc32_eval = crc32_def crc_update_def crc_byte_def crc_shift_def funpow8

lemma replicate_numeral: "replicate (numeral k) x = x # replicate (pred_numeral k) x"
  by (simp add: numeral_eq_Suc)

lemmas pack_eval = pack_d_def le_bytes_8 le_bytes_4 replicate_numeral

lemma sample_timestamp_1: "get_timestamp (utc_date 2007 1 9) = Inr 4730651136443285504"
  by code_simp

lemma sample_text_1:
  "encode_utf8 (str_of ''Here's to the crazy ones.'') =
     Inr [72, 101, 114, 101, 39, 115, 32, 116, 111, 32, 116, 104, 101, 32, 99, 114, 97,
          122, 121, 32, 111, 110, 101, 115, 46]"
  by (simp add: str_of_def utf8_char_def)

lemma sample_crc_1:
  "crc32 [72, 101, 114, 101, 39, 115, 32, 116, 111, 32, 116, 104, 101, 32, 99, 114, 97, 122,
         121, 32, 111, 110, 101, 115, 46] = 694132516"
  by (simp add: crc32_eval)

lemma sample_entry_v1_1:
  "entry_v1 \<lparr>entry_text = str_of ''Here's to the crazy ones.'', entry_date = utc_date 2007 1 9\<rparr> =
     Inr [25, 0, 0, 0, 1, 0, 0, 0, 0, 0, 0, 0, 37, 166, 166, 65, 0, 0, 0, 0, 37, 166, 166,
          65, 36, 159, 95, 41, 0, 0, 0, 0, 72, 101, 114, 101, 39, 115, 32, 116, 111, 32,
          116, 104, 101, 32, 99, 114, 97, 122, 121, 32, 111, 110, 101, 115, 46, 0, 0, 0, 0,
          0, 0, 0]"
  by (simp add: entry_v1_unfold sample_timestamp_1 sample_text_1 entry_bytes_v1_def
      sample_crc_1 pack_eval)

lemma sample_entry_v2_1:
  "entry_v2 \<lparr>entry_text = str_of ''Here's to the crazy ones.'', entry_date = utc_date 2007 1 9\<rparr> =
     Inr ([36, 159, 95, 41, 0, 0, 0, 0, 72, 101, 114, 101, 39, 115, 32, 116, 111, 32, 116,
          104, 101, 32, 99, 114, 97, 122, 121, 32, 111, 110, 101, 115, 46, 0, 0, 0],
          4730651136443285504)"
  by (simp add: entry_v2_unfold sample_timestamp_1 sample_text_1 entry_bytes_v2_def
      sample_crc_1 pack_eval)

lemma sample_timestamp_2: "get_timestamp (utc_date 2007 6 29) = Inr 4731146883043426304"
  by code_simp

lemma sample_text_2:
  "encode_utf8 (str_of ''The misfits.'') =
     Inr [84, 104, 101, 32, 109, 105, 115, 102, 105, 116, 115, 46]"
  by (simp add: str_of_def utf8_char_def)

lemma sample_crc_2:
  "crc32 [84, 104, 101, 32, 109, 105, 115, 102, 105, 116, 115, 46] = 412517335"
  by (simp add: crc32_eval)

lemma sample_entry_v1_2:
  "entry_v1 \<lparr>entry_text = str_of ''The misfits.'', entry_date = utc_date 2007 6 29\<rparr> =
     Inr [12, 0, 0, 0, 1, 0, 0, 0, 0, 0, 0, 0, 6, 105, 168, 65, 0, 0, 0, 0, 6, 105, 168,
          65, 215, 131, 150, 24, 0, 0, 0, 0, 84, 104, 101, 32, 109, 105, 115, 102, 105, 116,
          115, 46, 0, 0, 0, 0]"
  by (simp add: entry_v1_unfold sample_timestamp_2 sample_text_2 entry_bytes_v1_def
      sample_crc_2 pack_eval)

lemma sample_entry_v2_2:
  "entry_v2 \<lparr>entry_text = str_of ''The misfits.'', entry_date = utc_date 2007 6 29\<rparr> =
     Inr ([215, 131, 150, 24, 0, 0, 0, 0, 84, 104, 101, 32, 109, 105, 115, 102, 105, 116,
          115, 46],
          4731146883043426304)"
  by (simp add: entry_v2_unfold sample_timestamp_2 sample_text_2 entry_bytes_v2_def
      sample_crc_2 pack_eval)

lemma sample_timestamp_3: "get_timestamp (utc_date 2011 10 5) = Inr 4734474896434790400"
  by code_simp

lemma sample_text_3:
  "encode_utf8 (str_of ''The rebels.'') =
     Inr [84, 104, 101, 32, 114, 101, 98, 101, 108, 115, 46]"
  by (simp add: str_of_def utf8_char_def)

lemma sample_crc_3:
  "crc32 [84, 104, 101, 32, 114, 101, 98, 101, 108, 115, 46] = 3684668474"
  by (simp add: crc32_eval)

lemma sample_entry_v1_3:
  "entry_v1 \<lparr>entry_text = str_of ''The rebels.'', entry_date = utc_date 2011 10 5\<rparr> =
     Inr [11, 0, 0, 0, 1, 0, 0, 0, 0, 0, 0, 128, 213, 59, 180, 65, 0, 0, 0, 128, 213, 59,
          180, 65, 58, 148, 159, 219, 0, 0, 0, 0, 84, 104, 101, 32, 114, 101, 98, 101, 108,
          115, 46, 0, 0, 0, 0, 0]"
  by (simp add: entry_v1_unfold sample_timestamp_3 sample_text_3 entry_bytes_v1_def
      sample_crc_3 pack_eval)

lemma sample_entry_v2_3:
  "entry_v2 \<lparr>entry_text = str_of ''The rebels.'', entry_date = utc_date 2011 10 5\<rparr> =
     Inr ([58, 148, 159, 219, 0, 0, 0, 0, 84, 104, 101, 32, 114, 101, 98, 101, 108, 115, 46,
          0],
          4734474896434790400)"
  by (simp add: entry_v2_unfold sample_timestamp_3 sample_text_3 entry_bytes_v2_def
      sample_crc_3 pack_eval)

lemma sample_v1:
  "segb_version1 entries_data =
     Inr [216, 0, 0, 0, 0, 0, 0, 0, 0, 0, 0, 0, 0, 0, 0, 0, 0, 0, 0, 0, 0, 0, 0, 0, 0, 0,
          0, 0, 0, 0, 0, 0, 0, 0, 0, 0, 0, 0, 0, 0, 0, 0, 0, 0, 0, 0, 0, 0, 0, 0, 0, 0, 83,
          69, 71, 66, 25, 0, 0, 0, 1, 0, 0, 0, 0, 0, 0, 0, 37, 166, 166, 65, 0, 0, 0, 0, 37,
          166, 166, 65, 36, 159, 95, 41, 0, 0, 0, 0, 72, 101, 114, 101, 39, 115, 32, 116,
          111, 32, 116, 104, 101, 32, 99, 114, 97, 122, 121, 32, 111, 110, 101, 115, 46, 0,
          0, 0, 0, 0, 0, 0, 12, 0, 0, 0, 1, 0, 0, 0, 0, 0, 0, 0, 6, 105, 168, 65, 0, 0, 0,
          0, 6, 105, 168, 65, 215, 131, 150, 24, 0, 0, 0, 0, 84, 104, 101, 32, 109, 105,
          115, 102, 105, 116, 115, 46, 0, 0, 0, 0, 11, 0, 0, 0, 1, 0, 0, 0, 0, 0, 0, 128,
          213, 59, 180, 65, 0, 0, 0, 128, 213, 59, 180, 65, 58, 148, 159, 219, 0, 0, 0, 0,
          84, 104, 101, 32, 114, 101, 98, 101, 108, 115, 46, 0, 0, 0, 0, 0]"
  by (simp add: segb_version1_def entries_data_def sample_entry_v1_1 sample_entry_v1_2
      sample_entry_v1_3 pack_I_def le_bytes_4 slice_assign_def bytearray_def SEGB_def replicate_numeral)

lemma sample_now: "get_timestamp (utc_date 2024 1 1) = Inr 4739371324508471296"
  by code_simp

lemma sample_v2:
  "segb_version2 (utc_date 2024 1 1) entries_data =
     Inr [83, 69, 71, 66, 3, 0, 0, 0, 0, 0, 0, 0, 28, 161, 197, 65, 0, 0, 0, 0, 0, 0, 0, 0,
          0, 0, 0, 0, 0, 0, 0, 0, 36, 159, 95, 41, 0, 0, 0, 0, 72, 101, 114, 101, 39, 115,
          32, 116, 111, 32, 116, 104, 101, 32, 99, 114, 97, 122, 121, 32, 111, 110, 101,
          115, 46, 0, 0, 0, 215, 131, 150, 24, 0, 0, 0, 0, 84, 104, 101, 32, 109, 105, 115,
          102, 105, 116, 115, 46, 58, 148, 159, 219, 0, 0, 0, 0, 84, 104, 101, 32, 114, 101,
          98, 101, 108, 115, 46, 0, 0, 0, 0, 0, 1, 0, 0, 0, 0, 0, 0, 0, 37, 166, 166, 65,
          36, 0, 0, 0, 1, 0, 0, 0, 0, 0, 0, 0, 6, 105, 168, 65, 56, 0, 0, 0, 1, 0, 0, 0, 0,
          0, 0, 128, 213, 59, 180, 65]"
  by (simp add: segb_version2_def entries_data_def sample_entry_v2_1 sample_entry_v2_2
      sample_entry_v2_3 sample_now pack_I_def pack_i_def pack_eval slice_assign_def
      bytearray_def SEGB_def)


section \<open>Fields of an entry, and entries inside a file\<close>

lemma entry_v1_eq_Inr:
  "entry_v1 ed = Inr b \<longleftrightarrow>
     (\<exists>ts data. get_timestamp (entry_date ed) = Inr ts
        \<and> encode_utf8 (entry_text ed) = Inr data \<and> length data < 2 ^ 32
        \<and> b = entry_bytes_v1 ts data)"
  unfolding entry_v1_unfold by (auto simp: then_res_eq_Inr)

lemma entry_v2_eq_Inr:
  "entry_v2 ed = Inr r \<longleftrightarrow>
     (\<exists>ts data. get_timestamp (entry_date ed) = Inr ts
        \<and> encode_utf8 (entry_text ed) = Inr data \<and> r = (entry_bytes_v2 data, ts))"
  unfolding entry_v2_unfold by (auto simp: then_res_eq_Inr)

lemma length_entry_bytes_v1:
  "length (entry_bytes_v1 ts data) =
     32 + length data + (8 - (32 + length data) mod 8) mod 8"
  by (simp add: entry_bytes_v1_def)

lemma length_entry_bytes_v2:
  "length (entry_bytes_v2 data) = 8 + length data + (4 - (8 + length data) mod 4) mod 4"
  by (simp add: entry_bytes_v2_def)

lemma header_entry_bytes_v1:
  "segment (entry_bytes_v1 ts data) 0 32 =
     le_bytes 4 (length data) @ [1, 0, 0, 0] @ pack_d ts @ pack_d ts
       @ le_bytes 4 (unat (crc32 data)) @ replicate 4 0"
  by (simp add: entry_bytes_v1_def segment_def)

lemma checksum_entry_bytes_v1:
  "segment (entry_bytes_v1 ts data) 0x18 4 = le_bytes 4 (unat (crc32 data))"
  by (simp add: entry_bytes_v1_def segment_def)

lemma checksum_entry_bytes_v2:
  "segment (entry_bytes_v2 data) 0 4 = le_bytes 4 (unat (crc32 data))"
  by (simp add: entry_bytes_v2_def segment_def)

lemma le_nat_le_bytes_word32: "le_nat (le_bytes 4 (unat (w :: 32 word))) = unat w"
proof -
  have "unat w < 2 ^ 32" using unsigned_less [of w] by simp
  then show ?thesis by (simp add: le_nat_le_bytes)
qed

lemma segment_in_concat:
  assumes "i < length bs" "k + n \<le> length (bs ! i)"
  shows "segment (pre @ concat bs @ post)
           (length pre + sum_list (map length (take i bs)) + k) n = segment (bs ! i) k n"
proof -
  have "bs = take i bs @ bs ! i # drop (Suc i) bs"
    using assms(1) by (rule id_take_nth_drop)
  then have "concat bs = concat (take i bs) @ bs ! i @ concat (drop (Suc i) bs)"
    by (metis concat.simps(2) concat_append)
  then have "pre @ concat bs @ post =
      (pre @ concat (take i bs)) @ bs ! i @ (concat (drop (Suc i) bs) @ post)"
    by simp
  moreover have "length (pre @ concat (take i bs)) = length pre + sum_list (map length (take i bs))"
    by (simp add: length_concat_sum)
  ultimately show ?thesis
    using assms(2) by (simp add: segment_def)
qed

lemma list_all2_nth:
  "list_all2 P xs ys \<Longrightarrow> i < length xs \<Longrightarrow> P (xs ! i) (ys ! i)"
  by (simp add: list_all2_conv_all_nth)


lemma sample_sizes_v1:
  assumes "list_all2 (\<lambda>e b. entry_v1 e = Inr b) entries_data bs"
  shows "map length bs = [64, 48, 48]"
  using assms unfolding entries_data_def
  by (auto simp: list_all2_Cons1 sample_entry_v1_1 sample_entry_v1_2 sample_entry_v1_3)

lemma sample_sizes_v2:
  assumes "list_all2 (\<lambda>e r. entry_v2 e = Inr r) entries_data rs"
  shows "map length (map fst rs) = [36, 20, 20]"
    and "map snd rs = [4730651136443285504, 4731146883043426304, 4734474896434790400]"
  using assms unfolding entries_data_def
  by (auto simp: list_all2_Cons1 sample_entry_v2_1 sample_entry_v2_2 sample_entry_v2_3)



lemma pad_mod:
  assumes "0 < (a::nat)"
  shows "(n + (a - n mod a) mod a) mod a = 0"
proof (cases "n mod a = 0")
  case True
  then show ?thesis by simp
next
  case False
  have lt: "n mod a < a" using assms by simp
  have "(a - n mod a) mod a = a - n mod a"
    using False lt by simp
  moreover have "(n + (a - n mod a)) mod a = (n mod a + (a - n mod a)) mod a"
    by (simp add: mod_add_left_eq)
  moreover have "n mod a + (a - n mod a) = a" using lt by simp
  ultimately show ?thesis by simp
qed


lemma fields_entry_bytes_v1:
  "segment (entry_bytes_v1 ts data) 0x00 4 = le_bytes 4 (length data)"
  "segment (entry_bytes_v1 ts data) 0x04 4 = [1, 0, 0, 0]"
  "segment (entry_bytes_v1 ts data) 0x08 8 = pack_d ts"
  "segment (entry_bytes_v1 ts data) 0x10 8 = pack_d ts"
  "segment (entry_bytes_v1 ts data) 0x1C 4 = [0, 0, 0, 0]"
  "segment (entry_bytes_v1 ts data) 0x20 (length data) = data"
  by (simp_all add: entry_bytes_v1_def segment_def replicate_numeral)


section \<open>Accuracy of integer true division\<close>

lemma bit_length_pos:
  assumes "0 < n"
  shows "1 \<le> bit_length n \<and> 2 ^ nat (bit_length n - 1) \<le> n \<and> n < 2 ^ nat (bit_length n)"
  using assms
proof (induction n rule: bit_length.induct)
  case (1 n)
  show ?case
  proof (cases "n = 1")
    case True
    have "bit_length 1 = 1"
      by (simp add: bit_length.simps [of 1] bit_length.simps [of 0])
    then show ?thesis using True by simp
  next
    case False
    with "1.prems" have h: "0 < n div 2" by simp
    from "1.prems" have nle: "\<not> n \<le> 0" by simp
    from "1.IH" [OF nle h] have ih: "1 \<le> bit_length (n div 2)"
      "2 ^ nat (bit_length (n div 2) - 1) \<le> n div 2"
      "n div 2 < 2 ^ nat (bit_length (n div 2))"
      by simp_all
    have bl: "bit_length n = 1 + bit_length (n div 2)"
      using nle by (simp add: bit_length.simps [of n])
    have e1: "nat (bit_length n - 1) = Suc (nat (bit_length (n div 2) - 1))"
      using ih(1) bl by simp
    have e2: "nat (bit_length n) = Suc (nat (bit_length (n div 2)))"
      using ih(1) bl by simp
    have "2 * 2 ^ nat (bit_length (n div 2) - 1) \<le> n"
      using ih(2) by linarith
    then have g2: "2 ^ nat (bit_length n - 1) \<le> n"
      unfolding e1 by simp
    have "n < 2 * 2 ^ nat (bit_length (n div 2))"
      using ih(3) by linarith
    then have g3: "n < 2 ^ nat (bit_length n)"
      unfolding e2 by simp
    have "1 \<le> bit_length n" using bl ih(1) by simp
    with g2 g3 show ?thesis by blast
  qed
qed

lemma round_half_even_close:
  assumes "0 < b"
  shows "\<bar>real_of_int (round_half_even a b) - real_of_int a / real_of_int b\<bar> \<le> 1 / 2"
proof -
  define q where "q = a div b"
  define r where "r = a mod b"
  have a: "a = q * b + r" by (simp add: q_def r_def)
  have r: "0 \<le> r" "r < b" using assms by (simp_all add: r_def)
  have bpos: "0 < real_of_int b" using assms by simp
  have quot: "real_of_int a / real_of_int b = real_of_int q + real_of_int r / real_of_int b"
    using bpos by (simp add: a field_simps)
  have frac: "0 \<le> real_of_int r / real_of_int b" "real_of_int r / real_of_int b < 1"
    using r bpos by simp_all
  show ?thesis
  proof (cases "2 * r > b \<or> (2 * r = b \<and> odd q)")
    case True
    then have "round_half_even a b = q + 1"
      by (simp add: round_half_even_def q_def r_def Let_def)
    moreover have "1 / 2 \<le> real_of_int r / real_of_int b"
    proof -
      from True have "b \<le> 2 * r" by auto
      then have "real_of_int b \<le> 2 * real_of_int r" by linarith
      then show ?thesis using bpos by (simp add: field_simps)
    qed
    ultimately show ?thesis using quot frac by simp
  next
    case False
    then have "round_half_even a b = q"
      by (auto simp: round_half_even_def q_def r_def Let_def)
    moreover have "real_of_int r / real_of_int b \<le> 1 / 2"
    proof -
      from False have "2 * r \<le> b" by auto
      then have "2 * real_of_int r \<le> real_of_int b" by linarith
      then show ?thesis using bpos by (simp add: field_simps)
    qed
    ultimately show ?thesis using quot frac by simp
  qed
qed


lemma powi_split: "(2::real) powi e = 2 ^ nat e / 2 ^ nat (- e)"
  by (cases "0 \<le> e") (simp_all add: power_int_def field_simps)

lemma bit_length_powi:
  assumes "0 < n"
  shows "2 powi (bit_length n - 1) \<le> real_of_int n" "real_of_int n < 2 powi (bit_length n)"
proof -
  from bit_length_pos [OF assms] have b: "1 \<le> bit_length n"
    and lo: "2 ^ nat (bit_length n - 1) \<le> n" and hi: "n < 2 ^ nat (bit_length n)"
    by simp_all
  have "real_of_int (2 ^ nat (bit_length n - 1)) \<le> real_of_int n"
    using lo by (simp only: of_int_le_iff)
  then show "2 powi (bit_length n - 1) \<le> real_of_int n"
    using b by (simp add: power_int_def)
  have "real_of_int n < real_of_int (2 ^ nat (bit_length n))"
    using hi by (simp only: of_int_less_iff)
  then show "real_of_int n < 2 powi (bit_length n)"
    using b by (simp add: power_int_def)
qed

lemma exponent_bounds:
  assumes n: "0 < n" and d: "0 < d"
  defines "e0 \<equiv> bit_length n - bit_length d"
  defines "e \<equiv> (if n * 2 ^ nat (- e0) < d * 2 ^ nat e0 then e0 - 1 else e0)"
  shows "2 powi e \<le> real_of_int n / real_of_int d"
    and "real_of_int n / real_of_int d < 2 powi (e + 1)"
proof -
  let ?q = "real_of_int n / real_of_int d"
  have dpos: "0 < real_of_int d" and npos: "0 < real_of_int n" using n d by simp_all
  note bn = bit_length_powi [OF n] and bd = bit_length_powi [OF d]
  have p2: "0 < (2::real) powi i" for i by simp
  have lo: "2 powi (e0 - 1) < ?q"
  proof -
    have "(2::real) powi (e0 - 1) = 2 powi (bit_length n - 1) / 2 powi (bit_length d)"
      unfolding e0_def by (simp add: power_int_diff [symmetric] algebra_simps)
    also have "\<dots> \<le> real_of_int n / 2 powi (bit_length d)"
      using bn(1) by (intro divide_right_mono) simp_all
    also have "\<dots> < real_of_int n / real_of_int d"
      using bd(2) npos dpos by (intro divide_strict_left_mono) simp_all
    finally show ?thesis .
  qed
  have hi: "?q < 2 powi (e0 + 1)"
  proof -
    have "?q < 2 powi (bit_length n) / real_of_int d"
      using bn(2) dpos by (intro divide_strict_right_mono) simp_all
    also have "\<dots> \<le> 2 powi (bit_length n) / 2 powi (bit_length d - 1)"
      using bd(1) by (intro frac_le) simp_all
    also have "\<dots> = 2 powi (e0 + 1)"
      unfolding e0_def by (simp add: power_int_diff [symmetric] algebra_simps)
    finally show ?thesis .
  qed
  have test: "n * 2 ^ nat (- e0) < d * 2 ^ nat e0 \<longleftrightarrow> ?q < 2 powi e0"
  proof -
    have "n * 2 ^ nat (- e0) < d * 2 ^ nat e0 \<longleftrightarrow>
        real_of_int (n * 2 ^ nat (- e0)) < real_of_int (d * 2 ^ nat e0)"
      by (simp only: of_int_less_iff)
    also have "\<dots> \<longleftrightarrow> real_of_int n * 2 ^ nat (- e0) < real_of_int d * 2 ^ nat e0"
      by simp
    also have "\<dots> \<longleftrightarrow> ?q < 2 ^ nat e0 / 2 ^ nat (- e0)"
      using dpos by (simp add: field_simps)
    finally show ?thesis by (simp only: powi_split)
  qed
  show "2 powi e \<le> ?q"
  proof (cases "n * 2 ^ nat (- e0) < d * 2 ^ nat e0")
    case True
    then show ?thesis using lo by (simp add: e_def)
  next
    case False
    then show ?thesis using test by (simp add: e_def)
  qed
  show "?q < 2 powi (e + 1)"
  proof (cases "n * 2 ^ nat (- e0) < d * 2 ^ nat e0")
    case True
    then show ?thesis using test by (simp add: e_def)
  next
    case False
    then show ?thesis using hi by (simp add: e_def)
  qed
qed


lemma f64_value_fields:
  assumes E: "0 \<le> E" "E < 2047" and f: "0 \<le> f" "f < 2 ^ 52" and s: "s = 0 \<or> s = 1"
  shows "f64_value (word_of_int (s * 2 ^ 63 + E * 2 ^ 52 + f)) =
           (if s = 0 then 1 else - 1)
             * (if E = 0 then of_int f * 2 powi (- 1074)
                else of_int (2 ^ 52 + f) * 2 powi (E - 1075))"
proof -
  define x where "x = s * 2 ^ 63 + E * 2 ^ 52 + f"
  have low: "0 \<le> E * 2 ^ 52 + f" "E * 2 ^ 52 + f < 2 ^ 63"
    using E f by simp_all
  have x0: "0 \<le> x" "x < 2 ^ 64"
    using low s by (auto simp: x_def)
  have u: "uint (word_of_int x :: 64 word) = x"
    using x0 by (simp add: uint_word_of_int take_bit_eq_mod)
  have xs: "x = (E * 2 ^ 52 + f) + 2 ^ 63 * s"
    by (simp add: x_def)
  have d63: "x div 2 ^ 63 = s"
    unfolding xs using low
    by (simp only: div_mult_self2 [of "2 ^ 63" "E * 2 ^ 52 + f" s] div_pos_pos_trivial)
  have xe: "x = f + 2 ^ 52 * (s * 2 ^ 11 + E)"
    by (simp add: x_def algebra_simps)
  have m52: "x mod 2 ^ 52 = f"
    unfolding xe using f by (simp only: mod_mult_self2 mod_pos_pos_trivial)
  have d52: "x div 2 ^ 52 = s * 2 ^ 11 + E"
    unfolding xe using f
    by (simp only: div_mult_self2 [of "2 ^ 52" f "s * 2 ^ 11 + E"] div_pos_pos_trivial)
  have m11: "(s * 2 ^ 11 + E) mod 2 ^ 11 = E"
    using E by (simp only: mod_mult_self3) simp
  show ?thesis
    unfolding f64_value_def x_def [symmetric] u Let_def d63 m52 d52 m11 ..
qed


lemma f64_value_mag:
  assumes c: "0 \<le> c" and m: "0 \<le> m" "m \<le> 2 ^ 53" and cm: "c = 0 \<or> 2 ^ 52 \<le> m"
    and lt: "c * 2 ^ 52 + m < 2047 * 2 ^ 52" and s: "s = 0 \<or> s = 1"
  shows "f64_value (word_of_int (s * 2 ^ 63 + (c * 2 ^ 52 + m))) =
           (if s = 0 then 1 else - 1) * (of_int m * 2 powi (c - 1074))"
proof -
  consider "m < 2 ^ 52" | "2 ^ 52 \<le> m" "m < 2 ^ 53" | "m = 2 ^ 53"
    using m by linarith
  then show ?thesis
  proof cases
    case 1
    with cm have c0: "c = 0" by simp
    show ?thesis
      using f64_value_fields [of 0 m s] m(1) 1 s by (simp add: c0)
  next
    case 2
    have E: "0 \<le> c + 1" "c + 1 < 2047" using c lt 2 by simp_all
    have f: "0 \<le> m - 2 ^ 52" "m - 2 ^ 52 < 2 ^ 52" using 2 by simp_all
    have eq: "s * 2 ^ 63 + (c * 2 ^ 52 + m) = s * 2 ^ 63 + (c + 1) * 2 ^ 52 + (m - 2 ^ 52)"
      by (simp add: algebra_simps)
    have ne: "c + 1 \<noteq> 0" using c by simp
    show ?thesis
      unfolding eq f64_value_fields [OF E f s] using ne by simp
  next
    case 3
    have E: "0 \<le> c + 2" "c + 2 < 2047" using c lt 3 by simp_all
    have eq: "s * 2 ^ 63 + (c * 2 ^ 52 + m) = s * 2 ^ 63 + (c + 2) * 2 ^ 52 + 0"
      by (simp add: 3 algebra_simps)
    have ne: "c + 2 \<noteq> 0" using c by simp
    have "(2::real) powi ((c - 1074) + 1) = 2 powi (c - 1074) * 2 powi 1"
      by (rule power_int_add) simp
    then have p: "(2::real) powi (c - 1073) = 2 * 2 powi (c - 1074)"
      by (simp add: algebra_simps)
    have f0: "0 \<le> (0::int)" "(0::int) < 2 ^ 52" by simp_all
    show ?thesis
      unfolding eq f64_value_fields [OF E f0 s] using ne
      by (simp add: p 3)
  qed
qed


lemma int_ge_of_real_gt:
  assumes "real_of_int a - 1 < real_of_int m"
  shows "a \<le> m"
proof -
  have "real_of_int (a - 1) < real_of_int m" using assms by simp
  then have "a - 1 < m" by (simp only: of_int_less_iff)
  then show ?thesis by simp
qed

lemma int_le_of_real_lt:
  assumes "real_of_int m < real_of_int a + 1"
  shows "m \<le> a"
proof -
  have "real_of_int m < real_of_int (a + 1)" using assms by simp
  then have "m < a + 1" by (simp only: of_int_less_iff)
  then show ?thesis by simp
qed

lemma truediv_mag_accuracy:
  fixes n d :: int
  assumes n: "0 < n" and d: "0 < d"
  defines "e0 \<equiv> bit_length n - bit_length d"
  defines "e \<equiv> (if n * 2 ^ nat (- e0) < d * 2 ^ nat e0 then e0 - 1 else e0)"
  defines "ec \<equiv> max e (- 1022)"
  defines "k \<equiv> 52 - ec"
  defines "m \<equiv> round_half_even (n * 2 ^ nat k) (d * 2 ^ nat (- k))"
  defines "mag \<equiv> (ec + 1022) * 2 ^ 52 + m"
  assumes lt: "mag < 2047 * 2 ^ 52" and s: "s = 0 \<or> s = 1"
  shows "\<bar>f64_value (word_of_int (s * 2 ^ 63 + mag))
            - (if s = 0 then 1 else - 1) * (real_of_int n / real_of_int d)\<bar>
         \<le> max (real_of_int n / real_of_int d / 2 ^ 53) (2 powi (- 1075))"
proof -
  define q where "q = real_of_int n / real_of_int d"
  define x where "x = q * 2 powi k"
  have qpos: "0 < q" using n d by (simp add: q_def)
  have eb: "2 powi e \<le> q" "q < 2 powi (e + 1)"
    unfolding q_def e_def e0_def by (rule exponent_bounds [OF n d])+
  have xr: "real_of_int (n * 2 ^ nat k) / real_of_int (d * 2 ^ nat (- k)) = x"
    by (simp add: x_def q_def powi_split [of k])
  have "0 < d * 2 ^ nat (- k)" using d by simp
  from round_half_even_close [OF this, of "n * 2 ^ nat k"]
  have close: "\<bar>real_of_int m - x\<bar> \<le> 1 / 2"
    unfolding m_def xr .
  have clo: "x - 1 / 2 \<le> real_of_int m" and chi: "real_of_int m \<le> x + 1 / 2"
    using close by linarith+
  have xpos: "0 < x" using qpos by (simp add: x_def)
  have m0: "0 \<le> m"
  proof (rule int_ge_of_real_gt)
    show "real_of_int 0 - 1 < real_of_int m" using clo xpos by (simp; linarith)
  qed
  have qx: "q = x * 2 powi (- k)"
    by (simp add: x_def power_int_minus)
  have c0: "0 \<le> ec + 1022" by (simp add: ec_def)
  have ck: "ec + 1022 - 1074 = - k" by (simp add: k_def)
  have half: "(1 / 2) * (2::real) powi (- k) = 2 powi (ec - 53)"
  proof -
    have "(2::real) powi ((ec - 53) + 1) = 2 powi (ec - 53) * 2 powi 1"
      by (rule power_int_add) simp
    moreover have "ec - 53 + 1 = - k" by (simp add: k_def)
    ultimately show ?thesis by simp
  qed
  have range: "m \<le> 2 ^ 53 \<and> (ec + 1022 = 0 \<or> 2 ^ 52 \<le> m)
                 \<and> 2 powi (ec - 53) \<le> max (q / 2 ^ 53) (2 powi (- 1075))"
  proof (cases "- 1022 \<le> e")
    case True
    then have ec: "ec = e" by (simp add: ec_def)
    have k: "k = 52 - e" by (simp add: k_def ec)
    have "2 powi e * 2 powi (52 - e) \<le> x"
      unfolding x_def k using eb(1) by (intro mult_right_mono) simp_all
    moreover have "(2::real) powi e * 2 powi (52 - e) = 2 powi 52"
      by (simp add: power_int_add [symmetric])
    ultimately have xlo: "2 ^ 52 \<le> x" by simp
    have "x < 2 powi (e + 1) * 2 powi (52 - e)"
      unfolding x_def k using eb(2) by (intro mult_strict_right_mono) simp_all
    moreover have "(2::real) powi (e + 1) * 2 powi (52 - e) = 2 powi 53"
      by (simp add: power_int_add [symmetric])
    ultimately have xhi: "x < 2 ^ 53" by simp
    have "2 ^ 52 \<le> m"
    proof (rule int_ge_of_real_gt)
      show "real_of_int (2 ^ 52) - 1 < real_of_int m" using clo xlo by (simp; linarith)
    qed
    moreover have "m \<le> 2 ^ 53"
    proof (rule int_le_of_real_lt)
      show "real_of_int m < real_of_int (2 ^ 53) + 1" using chi xhi by (simp; linarith)
    qed
    moreover have "2 powi (ec - 53) \<le> q / 2 ^ 53"
    proof -
      have "(2::real) powi (e - 53) = 2 powi e / 2 powi 53"
        by (rule power_int_diff) simp
      also have "\<dots> \<le> q / 2 powi 53"
        using eb(1) by (intro divide_right_mono) simp_all
      finally show ?thesis by (simp add: ec)
    qed
    ultimately show ?thesis by simp
  next
    case False
    then have ec: "ec = - 1022" by (simp add: ec_def)
    have k: "k = 1074" by (simp add: k_def ec)
    have "x < 2 powi (e + 1) * 2 powi 1074"
      unfolding x_def k using eb(2) by (intro mult_strict_right_mono) simp_all
    also have "(2::real) powi (e + 1) * 2 powi 1074 \<le> 2 powi (- 1022) * 2 powi 1074"
      using False by (intro mult_right_mono power_int_increasing) simp_all
    also have "(2::real) powi (- 1022) * 2 powi 1074 = 2 powi (- 1022 + 1074)"
      by (rule power_int_add [symmetric]) simp
    finally have xhi: "x < 2 ^ 52" by simp
    have "m \<le> 2 ^ 52"
    proof (rule int_le_of_real_lt)
      show "real_of_int m < real_of_int (2 ^ 52) + 1" using chi xhi by (simp; linarith)
    qed
    then show ?thesis by (simp add: ec)
  qed
  then have m53: "m \<le> 2 ^ 53" and cm: "ec + 1022 = 0 \<or> 2 ^ 52 \<le> m"
    and bound: "2 powi (ec - 53) \<le> max (q / 2 ^ 53) (2 powi (- 1075))"
    by simp_all
  have v: "f64_value (word_of_int (s * 2 ^ 63 + mag)) =
             (if s = 0 then 1 else - 1) * (real_of_int m * 2 powi (- k))"
    unfolding mag_def
    using f64_value_mag [OF c0 m0 m53 cm lt [unfolded mag_def] s] by (simp only: ck)
  have "\<bar>f64_value (word_of_int (s * 2 ^ 63 + mag)) - (if s = 0 then 1 else - 1) * q\<bar>
          = \<bar>real_of_int m * 2 powi (- k) - q\<bar>"
    unfolding v by (simp add: abs_minus_commute)
  also have "\<dots> = \<bar>real_of_int m - x\<bar> * 2 powi (- k)"
  proof -
    have "real_of_int m * 2 powi (- k) - q = (real_of_int m - x) * 2 powi (- k)"
      by (simp add: qx algebra_simps)
    then show ?thesis by (simp add: abs_mult)
  qed
  also have "\<dots> \<le> (1 / 2) * 2 powi (- k)"
    using close by (intro mult_right_mono) simp_all
  also have "\<dots> = 2 powi (ec - 53)" by (rule half)
  also note bound
  finally show ?thesis by (simp only: q_def)
qed


lemma f64_value_0: "f64_value 0 = 0"
  by (simp add: f64_value_def)

lemma truediv_accuracy:
  assumes "truediv a b = Inr w"
  shows "\<bar>f64_value w - real_of_int a / real_of_int b\<bar>
           \<le> max (\<bar>real_of_int a / real_of_int b\<bar> / 2 ^ 53) (2 powi (- 1075))"
proof (cases "a = 0")
  case True
  with assms have "w = 0" by (simp add: truediv_def split: if_splits)
  then show ?thesis using True by (simp add: f64_value_0 max_def)
next
  case False
  from assms have b: "b \<noteq> 0" by (auto simp: truediv_def)
  define n where "n = \<bar>a\<bar>"
  define d where "d = \<bar>b\<bar>"
  define e0 where "e0 = bit_length n - bit_length d"
  define e where "e = (if n * 2 ^ nat (- e0) < d * 2 ^ nat e0 then e0 - 1 else e0)"
  define ec where "ec = max e (- 1022)"
  define k where "k = 52 - ec"
  define m where "m = round_half_even (n * 2 ^ nat k) (d * 2 ^ nat (- k))"
  define mag where "mag = (ec + 1022) * 2 ^ 52 + m"
  define s :: int where "s = (if (a < 0) \<noteq> (b < 0) then 1 else 0)"
  have n: "0 < n" and d: "0 < d" using False b by (simp_all add: n_def d_def)
  have unf: "truediv a b =
      (if mag \<ge> 2047 * 2 ^ 52 then Inl OverflowError
       else Inr (word_of_int (if (a < 0) \<noteq> (b < 0) then mag + 2 ^ 63 else mag)))"
    unfolding mag_def m_def k_def ec_def e_def e0_def n_def d_def truediv_def Let_def
    using False b by (simp only: if_False)
  from assms have lt: "mag < 2047 * 2 ^ 52"
    unfolding unf by (simp split: if_splits)
  from assms lt have w: "w = word_of_int (s * 2 ^ 63 + mag)"
    unfolding unf s_def by (auto split: if_splits)
  have s: "s = 0 \<or> s = 1" by (simp add: s_def)
  have q: "real_of_int a / real_of_int b
             = (if s = 0 then 1 else - 1) * (real_of_int n / real_of_int d)"
    using False b by (auto simp: s_def n_def d_def abs_if)
  have aq: "\<bar>real_of_int a / real_of_int b\<bar> = real_of_int n / real_of_int d"
    by (simp add: n_def d_def)
  note acc = truediv_mag_accuracy [OF n d lt [unfolded mag_def m_def k_def ec_def e_def e0_def] s]
  have "\<bar>f64_value w - (if s = 0 then 1 else - 1) * (real_of_int n / real_of_int d)\<bar>
          \<le> max (real_of_int n / real_of_int d / 2 ^ 53) (2 powi (- 1075))"
    unfolding w mag_def m_def k_def ec_def e_def e0_def by (rule acc)
  then show ?thesis
    by (simp only: aq q [symmetric])
qed


lemma truediv_accuracy_normal:
  assumes "truediv a b = Inr w" and "0 < b" and "b \<le> 2 ^ 1000"
  shows "\<bar>f64_value w - real_of_int a / real_of_int b\<bar>
           \<le> \<bar>real_of_int a / real_of_int b\<bar> / 2 ^ 53"
proof (cases "a = 0")
  case True
  with assms have "w = 0" by (simp add: truediv_def split: if_splits)
  then show ?thesis using True by (simp add: f64_value_0)
next
  case False
  then have "1 \<le> \<bar>a\<bar>" by simp
  then have a1: "1 \<le> \<bar>real_of_int a\<bar>"
    by (metis of_int_1 of_int_abs of_int_le_iff)
  have "real_of_int b \<le> real_of_int (2 ^ 1000)"
    using assms(3) by (simp only: of_int_le_iff)
  then have b1: "real_of_int b \<le> 2 ^ 1000" by simp
  have bpos: "0 < real_of_int b" using assms(2) by simp
  have "1 / 2 ^ 1000 \<le> 1 / real_of_int b"
    using b1 bpos by (intro divide_left_mono) simp_all
  also have "\<dots> \<le> \<bar>real_of_int a\<bar> / real_of_int b"
    using a1 bpos by (intro divide_right_mono) simp_all
  finally have lo: "1 / 2 ^ 1000 \<le> \<bar>real_of_int a / real_of_int b\<bar>"
    using bpos by simp
  have "(2::real) powi (- 1075) = 1 / 2 ^ 1075"
    by (simp add: power_int_minus_divide)
  also have "\<dots> = (1 / 2 ^ 1022) / 2 ^ 53"
    by simp
  also have "\<dots> \<le> (1 / 2 ^ 1000) / 2 ^ 53"
    by (intro divide_right_mono divide_left_mono) simp_all
  also have "\<dots> \<le> \<bar>real_of_int a / real_of_int b\<bar> / 2 ^ 53"
    using lo by (intro divide_right_mono) simp_all
  finally have "max (\<bar>real_of_int a / real_of_int b\<bar> / 2 ^ 53) (2 powi (- 1075))
      = \<bar>real_of_int a / real_of_int b\<bar> / 2 ^ 53"
    by (simp add: max_def)
  with truediv_accuracy [OF assms(1)] show ?thesis by simp
qed


lemma datetime_sub_instant: "datetime_sub a b = instant_us a - instant_us b"
  by (simp add: datetime_sub_def instant_us_def Let_def algebra_simps)

lemma get_timestamp_accuracy:
  assumes "get_timestamp dt = Inr ts"
  shows "\<bar>f64_value ts - seconds_since_2001 dt\<bar> \<le> \<bar>seconds_since_2001 dt\<bar> / 2 ^ 53"
proof -
  from assms have t: "truediv (instant_us dt - instant_us (utc_date 2001 1 1)) 1000000 = Inr ts"
    by (simp add: get_timestamp_def total_seconds_def datetime_sub_instant BASE_DATE_def)
  have "(1000000::int) \<le> 2 ^ 1000" by simp
  from truediv_accuracy_normal [OF t _ this] show ?thesis
    by (simp add: seconds_since_2001_def)
qed


section \<open>The layout of a version 2 file\<close>

lemma trailer_record_infos_from:
  assumes "i < length rs"
  shows "trailer_record (infos_from off rs ! i) =
           le_bytes 4 (off + sum_list (map length (take i (map fst rs)))) @ [1, 0, 0, 0]
             @ pack_d (snd (rs ! i))"
proof -
  have "map (\<lambda>r. length (fst r)) (take i rs) = map length (take i (map fst rs))"
    by (simp add: take_map)
  then show ?thesis
    using assms by (simp add: infos_from_nth trailer_record_def le_bytes_4)
qed

lemma segb_version2_layout:
  assumes "segb_version2 now es = Inr out"
  shows "\<exists>cts rs. get_timestamp now = Inr cts
           \<and> list_all2 (\<lambda>e r. entry_v2 e = Inr r) es rs
           \<and> length es < 2 ^ 32
           \<and> (\<forall>i < length es. sum_list (map length (take i (map fst rs))) < 2 ^ 32)
           \<and> out = (SEGB @ le_bytes 4 (length es) @ pack_d cts @ replicate 16 0)
                      @ concat (map fst rs) @ concat (map trailer_record (infos_from 0 rs))
           \<and> length out = 0x20 + sum_list (map length (map fst rs)) + 16 * length es
           \<and> trailer_start out (length es) = 0x20 + sum_list (map length (map fst rs))
           \<and> (\<forall>i < length es.
                 segment out (trailer_start out (length es) + 16 * i) 16 =
                   le_bytes 4 (sum_list (map length (take i (map fst rs)))) @ [1, 0, 0, 0]
                     @ pack_d (snd (rs ! i)))"
proof -
  from assms obtain cts rs where cts: "get_timestamp now = Inr cts"
    and rs: "list_all2 (\<lambda>e r. entry_v2 e = Inr r) es rs"
    and n: "length es < 2 ^ 32"
    and offs: "\<forall>i \<in> set (infos_from 0 rs). offset i < 2 ^ 32"
    and out: "out = SEGB @ le_bytes 4 (length es) @ pack_d cts @ replicate 16 0
                  @ concat (map fst rs) @ concat (map trailer_record (infos_from 0 rs))"
    unfolding segb_version2_eq_Inr by blast
  let ?hdr = "SEGB @ le_bytes 4 (length es) @ pack_d cts @ replicate 16 0"
  let ?tr = "map trailer_record (infos_from 0 rs)"
  have len: "length rs = length es" using rs by (simp add: list_all2_lengthD)
  have lhdr: "length ?hdr = 0x20" by (simp add: SEGB_def)
  have ltr: "length (concat ?tr) = 16 * length es"
    using sum_list_const [of "infos_from 0 rs" "\<lambda>i. length (trailer_record i)" 16]
    by (simp add: length_concat_sum comp_def len)
  have lout: "length out = 0x20 + sum_list (map length (map fst rs)) + 16 * length es"
    unfolding out using lhdr ltr by (simp add: length_concat_sum)
  have ts: "trailer_start out (length es) = 0x20 + sum_list (map length (map fst rs))"
    by (simp add: trailer_start_def lout)
  have off: "sum_list (map length (take i (map fst rs))) < 2 ^ 32" if "i < length es" for i
  proof -
    from that len have "infos_from 0 rs ! i \<in> set (infos_from 0 rs)" by simp
    with offs have "offset (infos_from 0 rs ! i) < 2 ^ 32" by blast
    then show ?thesis using that len by (simp add: infos_from_nth take_map comp_def)
  qed
  have rec: "segment out (trailer_start out (length es) + 16 * i) 16 =
                   le_bytes 4 (sum_list (map length (take i (map fst rs)))) @ [1, 0, 0, 0]
                     @ pack_d (snd (rs ! i))" if "i < length es" for i
  proof -
    have i: "i < length ?tr" using that len by simp
    have "out = (?hdr @ concat (map fst rs)) @ concat ?tr" by (simp add: out)
    moreover have "length (?hdr @ concat (map fst rs)) = trailer_start out (length es)"
      unfolding ts using lhdr by (simp add: length_concat_sum)
    ultimately have "segment out (trailer_start out (length es) + 16 * i) 16
        = segment (concat ?tr) (16 * i) 16"
      by (metis add_diff_cancel_left' le_add1 segment_append_right)
    also have "\<dots> = ?tr ! i"
      by (rule chunks_segment [OF _ i]) auto
    also have "\<dots> = trailer_record (infos_from 0 rs ! i)"
      using i by simp
    also have "\<dots> = le_bytes 4 (sum_list (map length (take i (map fst rs)))) @ [1, 0, 0, 0]
                     @ pack_d (snd (rs ! i))"
      using trailer_record_infos_from [of i rs 0] that len by simp
    finally show ?thesis .
  qed
  show ?thesis
    using cts rs n off out lout ts rec by (intro exI [of _ cts] exI [of _ rs]) simp
qed


lemma trailer_offset_value:
  assumes "segb_version2 now es = Inr out"
  shows "\<exists>rs. list_all2 (\<lambda>e r. entry_v2 e = Inr r) es rs
           \<and> trailer_start out (length es) = 0x20 + sum_list (map length (map fst rs))
           \<and> (\<forall>i < length es.
                 trailer_offset out (length es) i
                   = sum_list (map length (take i (map fst rs)))
                 \<and> segment out (0x20 + sum_list (map length (take i (map fst rs))))
                       (length (fst (rs ! i))) = fst (rs ! i))"
proof -
  from segb_version2_layout [OF assms] obtain cts rs
    where rs: "list_all2 (\<lambda>e r. entry_v2 e = Inr r) es rs"
      and offs: "\<forall>i < length es. sum_list (map length (take i (map fst rs))) < 2 ^ 32"
      and out: "out = (SEGB @ le_bytes 4 (length es) @ pack_d cts @ replicate 16 0)
                      @ concat (map fst rs) @ concat (map trailer_record (infos_from 0 rs))"
      and ts: "trailer_start out (length es) = 0x20 + sum_list (map length (map fst rs))"
      and rec: "\<forall>i < length es.
                 segment out (trailer_start out (length es) + 16 * i) 16 =
                   le_bytes 4 (sum_list (map length (take i (map fst rs)))) @ [1, 0, 0, 0]
                     @ pack_d (snd (rs ! i))"
    by blast
  have len: "length rs = length es" using rs by (simp add: list_all2_lengthD)
  have per: "trailer_offset out (length es) i = sum_list (map length (take i (map fst rs)))
        \<and> segment out (0x20 + sum_list (map length (take i (map fst rs))))
             (length (fst (rs ! i))) = fst (rs ! i)"
    if i: "i < length es" for i
  proof -
    let ?t = "trailer_start out (length es) + 16 * i"
    let ?off = "sum_list (map length (take i (map fst rs)))"
    from rec i have r: "segment out ?t 16 = le_bytes 4 ?off @ [1, 0, 0, 0] @ pack_d (snd (rs ! i))"
      by blast
    have "segment out ?t 4 = take 4 (segment out ?t 16)"
      by (simp add: segment_def)
    then have "segment out ?t 4 = le_bytes 4 ?off"
      unfolding r by simp
    moreover have "?off < 2 ^ 32" using offs i by blast
    ultimately have a: "trailer_offset out (length es) i = ?off"
      by (simp add: trailer_offset_def le_nat_le_bytes)
    have i': "i < length (map fst rs)" using i len by simp
    have "0 + length (fst (rs ! i)) \<le> length (map fst rs ! i)" using i' by simp
    from segment_in_concat [OF i' this,
        of "SEGB @ le_bytes 4 (length es) @ pack_d cts @ replicate 16 0"
           "concat (map trailer_record (infos_from 0 rs))"]
    have "segment out (0x20 + ?off) (length (fst (rs ! i))) = fst (rs ! i)"
      using i' by (simp add: out SEGB_def segment_all)
    with a show ?thesis by blast
  qed
  show ?thesis
    using rs ts per by (intro exI [of _ rs]) simp
qed

lemma sum_list_take_mono:
  "i \<le> j \<Longrightarrow> sum_list (take i (ns :: nat list)) \<le> sum_list (take j ns)"
proof -
  assume "i \<le> j"
  then have "take i ns = take i (take j ns)" by (simp add: min_def)
  then show ?thesis by (metis sum_list_take_le)
qed

lemma entry_v2_size:
  assumes "entry_v2 ed = Inr r"
  shows "8 \<le> length (fst r)"
  using assms by (auto simp: entry_v2_eq_Inr length_entry_bytes_v2)


lemma list_all2_Inr_unique:
  assumes "list_all2 (\<lambda>e r. f e = Inr r) es rs" and "list_all2 (\<lambda>e r. f e = Inr r) es rs'"
  shows "rs = rs'"
proof (rule nth_equalityI)
  show l: "length rs = length rs'"
    using assms by (simp add: list_all2_lengthD [symmetric])
  fix i assume "i < length rs"
  then have i: "i < length es" using assms(1) by (simp add: list_all2_lengthD)
  have "f (es ! i) = Inr (rs ! i)" using list_all2_nth [OF assms(1) i] .
  moreover have "f (es ! i) = Inr (rs' ! i)" using list_all2_nth [OF assms(2) i] .
  ultimately show "rs ! i = rs' ! i" by simp
qed

lemma segb_version2_other_clock:
  assumes "segb_version2 now es = Inr out" and "get_timestamp now' = Inr c'"
  shows "\<exists>out'. segb_version2 now' es = Inr out'"
  using assms unfolding segb_version2_eq_Inr by blast

lemma sample_now_2: "get_timestamp (utc_date 2025 1 1) = Inr 4739636592426090496"
  by code_simp


section \<open>Decoding what the script wrote\<close>

lemma segment_middle:
  assumes "k + n \<le> length ys"
  shows "segment (xs @ ys @ zs) (length xs + k) n = segment ys k n"
  using assms by (simp add: segment_def)

lemma le_int32_1: "le_int32 [1, 0, 0, 0] = 1"
  by (simp add: le_int32_def)

lemma unpack_pack_d: "unpack_d (pack_d x) = x"
  by (simp add: unpack_d_def le_nat_pack_d)

lemma decode_entries_v1_entries:
  assumes "length pre mod 8 = 0" and "\<forall>x \<in> set xs. length (snd x) < 2 ^ 32"
  shows "decode_entries_v1 (pre @ concat (map (\<lambda>x. entry_bytes_v1 (fst x) (snd x)) xs))
           (length pre + length (concat (map (\<lambda>x. entry_bytes_v1 (fst x) (snd x)) xs)))
           (length pre)
         = Inr (map record_v1 xs)"
  using assms
proof (induction xs arbitrary: pre)
  case Nil
  show ?case by (simp add: decode_entries_v1.simps)
next
  case (Cons x xs)
  let ?E = "entry_bytes_v1 (fst x) (snd x)"
  let ?R = "concat (map (\<lambda>x. entry_bytes_v1 (fst x) (snd x)) xs)"
  let ?buf = "pre @ ?E @ ?R"
  let ?off = "length pre"
  have lx: "length (snd x) < 2 ^ 32" using Cons.prems(2) by simp
  have lE: "length ?E = 32 + length (snd x) + (8 - (32 + length (snd x)) mod 8) mod 8"
    by (rule length_entry_bytes_v1)
  have seg: "segment ?buf (?off + k) n = segment ?E k n" if "k + n \<le> length ?E" for k n
    using that by (rule segment_middle)
  have f_len: "le_nat (segment ?buf ?off 4) = length (snd x)"
    using seg [of 0 4] lx lE by (simp add: fields_entry_bytes_v1 le_nat_le_bytes)
  have f_state: "le_int32 (segment ?buf (?off + 4) 4) = 1"
    using seg [of 4 4] lE by (simp add: fields_entry_bytes_v1 le_int32_1)
  have f_ts1: "unpack_d (segment ?buf (?off + 8) 8) = fst x"
    using seg [of 8 8] lE by (simp add: fields_entry_bytes_v1 unpack_pack_d)
  have f_ts2: "unpack_d (segment ?buf (?off + 16) 8) = fst x"
    using seg [of 16 8] lE by (simp add: fields_entry_bytes_v1 unpack_pack_d)
  have f_crc: "le_nat (segment ?buf (?off + 24) 4) = unat (crc32 (snd x))"
    using seg [of 24 4] lE
    by (simp add: checksum_entry_bytes_v1 le_nat_le_bytes_word32)
  have f_data: "segment ?buf (?off + 32) (length (snd x)) = snd x"
    using seg [of 32 "length (snd x)"] lE by (simp add: fields_entry_bytes_v1)
  have "(?off + 32 + length (snd x)) mod 8 = (32 + length (snd x)) mod 8"
    using Cons.prems(1) by (metis add.assoc add_cancel_right_left mod_add_left_eq)
  then have nxt: "?off + 32 + length (snd x) + (8 - (?off + 32 + length (snd x)) mod 8) mod 8
                   = length (pre @ ?E)"
    by (simp add: lE)
  have m8: "length (pre @ ?E) mod 8 = 0"
  proof -
    have "length ?E mod 8 = 0"
      unfolding lE using pad_mod [of 8 "32 + length (snd x)"] by simp
    then show ?thesis using Cons.prems(1) by (simp add: mod_add_eq [symmetric])
  qed
  have rest: "\<forall>x \<in> set xs. length (snd x) < 2 ^ 32" using Cons.prems(2) by simp
  have ih: "decode_entries_v1 ?buf (length ?buf) (length (pre @ ?E)) = Inr (map record_v1 xs)"
    using Cons.IH [OF m8 rest] by (simp add: add.assoc)
  have c1: "\<not> length ?buf \<le> ?off" using lE by simp
  have c2: "\<not> length ?buf < ?off + 32" using lE by simp
  have c3: "\<not> length ?buf < ?off + 32 + length (snd x)"
    using lE by simp
  have "decode_entries_v1 ?buf (length ?buf) ?off = Inr (record_v1 x # map record_v1 xs)"
    by (subst decode_entries_v1.simps)
      (simp only: c1 c2 c3 if_False f_len f_state f_ts1 f_ts2 f_crc f_data nxt ih
        sum.case record_v1_def simp_thms)
  then show ?case by simp
qed


lemma entries_v1_fields:
  assumes "list_all2 (\<lambda>e b. entry_v1 e = Inr b) es bs"
  shows "\<exists>xs. bs = map (\<lambda>x. entry_bytes_v1 (fst x) (snd x)) xs
           \<and> list_all2 (\<lambda>e x. get_timestamp (entry_date e) = Inr (fst x)
                                \<and> encode_utf8 (entry_text e) = Inr (snd x)) es xs
           \<and> (\<forall>x \<in> set xs. length (snd x) < 2 ^ 32)"
  using assms
proof (induction rule: list_all2_induct)
  case Nil
  then show ?case by simp
next
  case (Cons e es b bs)
  from Cons.hyps(1) obtain ts d where t: "get_timestamp (entry_date e) = Inr ts"
    and d: "encode_utf8 (entry_text e) = Inr d" and l: "length d < 2 ^ 32"
    and b: "b = entry_bytes_v1 ts d"
    unfolding entry_v1_eq_Inr by blast
  from Cons.IH obtain xs where xs: "bs = map (\<lambda>x. entry_bytes_v1 (fst x) (snd x)) xs"
    "list_all2 (\<lambda>e x. get_timestamp (entry_date e) = Inr (fst x)
                                \<and> encode_utf8 (entry_text e) = Inr (snd x)) es xs"
    "\<forall>x \<in> set xs. length (snd x) < 2 ^ 32"
    by blast
  show ?case
    using t d l b xs by (intro exI [of _ "(ts, d) # xs"]) simp
qed

lemma list_all2_data_unique:
  assumes "list_all2 (\<lambda>e x. P e x \<and> f e = Inr (g x)) es xs"
    and "list_all2 (\<lambda>e d. f e = Inr d) es ds"
  shows "map g xs = ds"
proof (rule nth_equalityI)
  show "length (map g xs) = length ds"
    using assms by (simp add: list_all2_lengthD [symmetric])
  fix i assume "i < length (map g xs)"
  then have i: "i < length es" using assms(1) by (simp add: list_all2_lengthD)
  have "f (es ! i) = Inr (g (xs ! i))" using list_all2_nth [OF assms(1) i] by simp
  moreover have "f (es ! i) = Inr (ds ! i)" using list_all2_nth [OF assms(2) i] .
  ultimately show "map g xs ! i = ds ! i"
    using i assms(1) by (simp add: list_all2_lengthD)
qed

lemma decode_v1_encoded:
  assumes "segb_version1 es = Inr out"
    and "list_all2 (\<lambda>e d. encode_utf8 (entry_text e) = Inr d) es ds"
  shows "\<exists>recs. decode_v1 out = Inr recs \<and> map rec_data recs = ds
           \<and> (\<forall>r \<in> set recs. rec_valid r)"
proof -
  from assms(1) obtain bs where bs: "list_all2 (\<lambda>e b. entry_v1 e = Inr b) es bs"
    and lt: "0x38 + sum_list (map length bs) < (2::nat) ^ 32"
    and out: "out = le_bytes 4 (0x38 + sum_list (map length bs)) @ replicate 48 0 @ SEGB
                      @ concat bs"
    unfolding segb_version1_eq_Inr by blast
  from entries_v1_fields [OF bs] obtain xs
    where xs: "bs = map (\<lambda>x. entry_bytes_v1 (fst x) (snd x)) xs"
      and f: "list_all2 (\<lambda>e x. get_timestamp (entry_date e) = Inr (fst x)
                                \<and> encode_utf8 (entry_text e) = Inr (snd x)) es xs"
      and l: "\<forall>x \<in> set xs. length (snd x) < 2 ^ 32"
    by blast
  define hdr where "hdr = le_bytes 4 (0x38 + sum_list (map length bs)) @ replicate 48 0 @ SEGB"
  have lh: "length hdr = 0x38" by (simp add: hdr_def SEGB_def)
  have o: "out = hdr @ concat bs" by (simp add: out hdr_def)
  have magic: "segment out 0x34 4 = SEGB"
    by (simp add: out segment_def SEGB_def)
  have "segment out 0x00 4 = le_bytes 4 (0x38 + sum_list (map length bs))"
    by (simp add: out segment_def)
  then have eo: "le_nat (segment out 0x00 4) = length hdr + length (concat bs)"
    using lt by (simp add: le_nat_le_bytes lh length_concat_sum)
  have "length hdr mod 8 = 0" by (simp add: lh)
  from decode_entries_v1_entries [OF this l]
  have "decode_entries_v1 out (length hdr + length (concat bs)) (length hdr)
          = Inr (map record_v1 xs)"
    by (simp only: o xs)
  then have "decode_entries_v1 out (le_nat (segment out 0x00 4)) 0x38 = Inr (map record_v1 xs)"
    by (simp only: eo lh)
  then have dec: "decode_v1 out = Inr (map record_v1 xs)"
    using magic lh by (simp add: decode_v1_def o)
  have "map rec_data (map record_v1 xs) = map snd xs"
    by (simp add: record_v1_def comp_def)
  also have "\<dots> = ds"
    by (rule list_all2_data_unique [OF f assms(2)])
  finally have "map rec_data (map record_v1 xs) = ds" .
  moreover have "\<forall>r \<in> set (map record_v1 xs). rec_valid r"
    by (simp add: record_v1_def)
  ultimately show ?thesis using dec by blast
qed


lemma strip_zeros_snoc_zero: "strip_zeros (Suc k) (ys @ [0]) = strip_zeros k ys"
  by simp

lemma strip_zeros_padding:
  assumes "p \<le> k" and "d = [] \<or> last d \<noteq> 0"
  shows "strip_zeros k (d @ replicate p 0) = d"
  using assms
proof (induction k arbitrary: p)
  case 0
  then show ?case by simp
next
  case (Suc k)
  show ?case
  proof (cases p)
    case 0
    then show ?thesis using Suc.prems(2) by auto
  next
    case (Suc q)
    have e: "d @ replicate p 0 = (d @ replicate q 0) @ [0]"
      unfolding Suc by (simp add: replicate_append_same)
    have "q \<le> k" using Suc.prems(1) Suc by simp
    from Suc.IH [OF this Suc.prems(2)] show ?thesis
      unfolding e by (simp only: strip_zeros_snoc_zero)
  qed
qed

lemma read_trailer_record_packed:
  assumes "off < 2 ^ 32"
  shows "read_trailer_record (le_bytes 4 off @ [1, 0, 0, 0] @ pack_d ts)
           = \<lparr>offset = off, state = 1, timestamp = ts\<rparr>"
proof -
  let ?r = "le_bytes 4 off @ [1, 0, 0, 0] @ pack_d ts"
  have "segment ?r 0 4 = le_bytes 4 off" by (simp add: segment_def)
  then have a: "le_nat (segment ?r 0 4) = off" using assms by (simp add: le_nat_le_bytes)
  have "segment ?r 4 4 = [1, 0, 0, 0]" by (simp add: segment_def)
  then have b: "le_int32 (segment ?r 4 4) = 1" by (simp add: le_int32_1)
  have "segment ?r 8 8 = pack_d ts" by (simp add: segment_def)
  then have c: "unpack_d (segment ?r 8 8) = ts" by (simp add: unpack_pack_d)
  show ?thesis
    by (simp only: read_trailer_record_def a b c)
qed

lemma decode_entry_v2_at:
  assumes "8 \<le> length b"
  shows "decode_entry_v2 (pre @ b @ post) \<lparr>offset = length pre, state = 1, timestamp = ts\<rparr>
           (length pre + length b) = Inr (record_v2 (b, ts))"
proof -
  have "segment (pre @ b @ post) (length pre) (length b) = b"
    using segment_middle [of 0 "length b" b pre post] by (simp add: segment_all)
  then show ?thesis
    using assms by (simp add: decode_entry_v2_def record_v2_def Let_def)
qed

lemma decode_entries_v2_entries:
  assumes "\<forall>r \<in> set rs. 8 \<le> length (fst r)"
  shows "decode_entries_v2 (pre @ concat (map fst rs)) (infos_from (length pre) rs)
           = Inr (map record_v2 rs)"
  using assms
proof (induction rs arbitrary: pre)
  case Nil
  show ?case by simp
next
  case (Cons r rs)
  obtain b ts where r: "r = (b, ts)" by (cases r)
  have b8: "8 \<le> length b" using Cons.prems r by simp
  have rest: "\<forall>r \<in> set rs. 8 \<le> length (fst r)" using Cons.prems by simp
  have ih: "decode_entries_v2 ((pre @ b) @ concat (map fst rs)) (infos_from (length (pre @ b)) rs)
           = Inr (map record_v2 rs)"
    by (rule Cons.IH [OF rest])
  show ?case
  proof (cases rs)
    case Nil
    have "decode_entry_v2 (pre @ b @ []) \<lparr>offset = length pre, state = 1, timestamp = ts\<rparr>
           (length pre + length b) = Inr (record_v2 (b, ts))"
      using b8 by (rule decode_entry_v2_at)
    then show ?thesis
      by (simp add: Nil r infos_from_Cons)
  next
    case (Cons r' rs')
    have "decode_entry_v2 (pre @ b @ concat (map fst rs))
            \<lparr>offset = length pre, state = 1, timestamp = ts\<rparr>
           (length pre + length b) = Inr (record_v2 (b, ts))"
      using b8 by (rule decode_entry_v2_at)
    moreover have "infos_from (length pre) (r # rs) =
        \<lparr>offset = length pre, state = 1, timestamp = ts\<rparr>
          # \<lparr>offset = length pre + length b, state = 1, timestamp = snd r'\<rparr>
          # infos_from (length pre + length b + length (fst r')) rs'"
      by (simp add: r Cons infos_from_Cons)
    moreover have "infos_from (length (pre @ b)) rs =
        \<lparr>offset = length pre + length b, state = 1, timestamp = snd r'\<rparr>
          # infos_from (length pre + length b + length (fst r')) rs'"
      by (simp add: Cons infos_from_Cons)
    ultimately show ?thesis
      using ih by (simp add: r)
  qed
qed


lemma drop_header_entry_bytes_v2:
  "strip_padding (drop 8 (entry_bytes_v2 d)) = data_read_v2 d"
  by (simp add: entry_bytes_v2_def data_read_v2_def)

lemma decode_v2_encoded:
  assumes "segb_version2 now es = Inr out"
    and "list_all2 (\<lambda>e d. encode_utf8 (entry_text e) = Inr d) es ds"
  shows "\<exists>recs. decode_v2 out = Inr recs \<and> map rec_data recs = map data_read_v2 ds"
proof -
  from segb_version2_layout [OF assms(1)] obtain cts rs
    where rs: "list_all2 (\<lambda>e r. entry_v2 e = Inr r) es rs"
      and n: "length es < 2 ^ 32"
      and offs: "\<forall>i < length es. sum_list (map length (take i (map fst rs))) < 2 ^ 32"
      and out: "out = (SEGB @ le_bytes 4 (length es) @ pack_d cts @ replicate 16 0)
                      @ concat (map fst rs) @ concat (map trailer_record (infos_from 0 rs))"
      and len: "length out = 0x20 + sum_list (map length (map fst rs)) + 16 * length es"
      and ts: "trailer_start out (length es) = 0x20 + sum_list (map length (map fst rs))"
      and rec: "\<forall>i < length es.
                 segment out (trailer_start out (length es) + 16 * i) 16 =
                   le_bytes 4 (sum_list (map length (take i (map fst rs)))) @ [1, 0, 0, 0]
                     @ pack_d (snd (rs ! i))"
    by blast
  have lrs: "length rs = length es" using rs by (simp add: list_all2_lengthD)
  define region where "region = concat (map fst rs)"
  have lreg: "length region = sum_list (map length (map fst rs))"
    unfolding region_def by (rule length_concat_sum)
  have c1: "\<not> length out < 0x20" using len by simp
  have c2: "segment out 0x00 4 = SEGB" by (simp add: out segment_def SEGB_def)
  have "segment out 0x04 4 = le_bytes 4 (length es)"
    by (simp add: out segment_def SEGB_def)
  then have cnt: "le_nat (segment out 0x04 4) = length es"
    using n by (simp add: le_nat_le_bytes)
  have c3: "\<not> length out < 0x20 + length es * 16" using len by simp
  have ta: "length out - length es * 16 = 0x20 + length region"
    using len lreg by simp
  have ta': "length out - length es * 16 = trailer_start out (length es)"
    by (simp add: trailer_start_def mult.commute)
  have reg: "segment out 0x20 (0x20 + length region - 0x20) = region"
    by (simp add: out region_def segment_def SEGB_def)
  have infos: "map (\<lambda>i. read_trailer_record
                   (segment out (trailer_start out (length es) + 16 * i) 16)) [0 ..< length es]
                 = infos_from 0 rs"
  proof (rule nth_equalityI)
    show "length (map (\<lambda>i. read_trailer_record
                   (segment out (trailer_start out (length es) + 16 * i) 16)) [0 ..< length es])
            = length (infos_from 0 rs)"
      by (simp add: lrs)
    fix i
    assume "i < length (map (\<lambda>i. read_trailer_record
                   (segment out (trailer_start out (length es) + 16 * i) 16)) [0 ..< length es])"
    then have i: "i < length es" by simp
    have o: "sum_list (map length (take i (map fst rs))) < 2 ^ 32" using offs i by blast
    have "read_trailer_record (segment out (trailer_start out (length es) + 16 * i) 16)
            = \<lparr>offset = sum_list (map length (take i (map fst rs))), state = 1,
               timestamp = snd (rs ! i)\<rparr>"
      using rec i read_trailer_record_packed [OF o] by simp
    also have "\<dots> = infos_from 0 rs ! i"
      using i lrs by (simp add: infos_from_nth take_map comp_def)
    finally show "map (\<lambda>i. read_trailer_record
                   (segment out (trailer_start out (length es) + 16 * i) 16)) [0 ..< length es] ! i
                 = infos_from 0 rs ! i"
      using i by simp
  qed
  have big: "\<forall>r \<in> set rs. 8 \<le> length (fst r)"
  proof
    fix r assume "r \<in> set rs"
    then obtain i where i: "i < length rs" and r: "r = rs ! i"
      by (auto simp: in_set_conv_nth)
    have "entry_v2 (es ! i) = Inr (rs ! i)" using list_all2_nth [OF rs] i lrs by simp
    from entry_v2_size [OF this] show "8 \<le> length (fst r)" by (simp add: r)
  qed
  have "decode_entries_v2 ([] @ concat (map fst rs)) (infos_from (length ([]::bytes)) rs)
          = Inr (map record_v2 rs)"
    by (rule decode_entries_v2_entries [OF big])
  then have de: "decode_entries_v2 region (infos_from 0 rs) = Inr (map record_v2 rs)"
    by (simp add: region_def)
  have dec: "decode_v2 out = Inr (map record_v2 rs)"
    unfolding decode_v2_def Let_def cnt
    by (simp only: c1 c2 c3 if_False ta reg simp_thms)
      (simp only: ta [symmetric] ta' infos de)
  have "map rec_data (map record_v2 rs) = map data_read_v2 ds"
  proof (rule nth_equalityI)
    show "length (map rec_data (map record_v2 rs)) = length (map data_read_v2 ds)"
      using lrs assms(2) by (simp add: list_all2_lengthD)
    fix i assume "i < length (map rec_data (map record_v2 rs))"
    then have i: "i < length es" using lrs by simp
    have "entry_v2 (es ! i) = Inr (rs ! i)" using list_all2_nth [OF rs i] .
    moreover have "encode_utf8 (entry_text (es ! i)) = Inr (ds ! i)"
      using list_all2_nth [OF assms(2) i] .
    ultimately have "fst (rs ! i) = entry_bytes_v2 (ds ! i)"
      by (auto simp: entry_v2_eq_Inr)
    then have "rec_data (record_v2 (rs ! i)) = data_read_v2 (ds ! i)"
      by (simp add: record_v2_def drop_header_entry_bytes_v2)
    then show "map rec_data (map record_v2 rs) ! i = map data_read_v2 ds ! i"
      using i lrs assms(2) by (simp add: list_all2_lengthD)
  qed
  with dec show ?thesis by blast
qed


lemma round_trip_v1_eq:
  assumes "segb_version1 es = Inr out"
    and "list_all2 (\<lambda>e d. encode_utf8 (entry_text e) = Inr d) es ds"
  shows "round_trip_v1 es = Some ds"
  using decode_v1_encoded [OF assms] assms(1) by (auto simp: round_trip_v1_def)

lemma round_trip_v2_eq:
  assumes "segb_version2 now es = Inr out"
    and "list_all2 (\<lambda>e d. encode_utf8 (entry_text e) = Inr d) es ds"
  shows "round_trip_v2 now es = Some (map data_read_v2 ds)"
  using decode_v2_encoded [OF assms] assms(1) by (auto simp: round_trip_v2_def)

lemma data_read_v2_id:
  assumes "d = [] \<or> last d \<noteq> 0"
  shows "data_read_v2 d = d"
proof -
  have "(4 - (8 + length d) mod 4) mod 4 < 4"
    by (rule mod_less_divisor) simp
  then have "(4 - (8 + length d) mod 4) mod 4 \<le> 3"
    by linarith
  from strip_zeros_padding [OF this assms] show ?thesis
    by (simp only: data_read_v2_def strip_padding_def)
qed

lemma segb_version2_single:
  assumes "entry_v2 e = Inr (b, ts)" and "get_timestamp now = Inr cts"
  shows "segb_version2 now [e] =
           Inr (SEGB @ le_bytes 4 1 @ pack_d cts @ replicate 16 0 @ b
                  @ le_bytes 4 0 @ [1, 0, 0, 0] @ pack_d ts)"
  unfolding segb_version2_eq_Inr
  using assms
  by (intro exI [of _ cts] exI [of _ "[(b, ts)]"])
    (simp add: infos_from_Cons trailer_record_def le_bytes_4)


section \<open>Version 1: the end offset\<close>

text \<open>
  C2. When the version 1 generation succeeds, the file is the 56-byte header followed by
  the entries of the records, in order; the unsigned 32-bit little-endian value in bytes
  \<open>[0x00:0x04)\<close> is \<open>0x38\<close> plus the sum of the (padded) entry sizes, and it is the
  length of the file.
\<close>

theorem v1_end_offset_is_length:
  assumes "segb_version1 es = Inr out"
  shows "\<exists>bs. list_all2 (\<lambda>e b. entry_v1 e = Inr b) es bs
           \<and> segment out 0x38 (length out - 0x38) = concat bs
           \<and> le_nat (segment out 0x00 0x04) = 0x38 + sum_list (map length bs)
           \<and> le_nat (segment out 0x00 0x04) = length out"
proof -
  from assms obtain bs where bs: "list_all2 (\<lambda>e b. entry_v1 e = Inr b) es bs"
    and lt: "0x38 + sum_list (map length bs) < (2::nat) ^ 32"
    and out: "out = le_bytes 4 (0x38 + sum_list (map length bs)) @ replicate 48 0 @ SEGB
                      @ concat bs"
    unfolding segb_version1_eq_Inr by blast
  have len: "length out = 0x38 + sum_list (map length bs)"
    by (simp add: out SEGB_def length_concat_sum)
  have "segment out 0x00 0x04 = le_bytes 4 (0x38 + sum_list (map length bs))"
    by (simp add: out segment_def)
  then have v: "le_nat (segment out 0x00 0x04) = 0x38 + sum_list (map length bs)"
    using lt by (simp add: le_nat_le_bytes)
  have "segment out 0x38 (length out - 0x38) = concat bs"
    by (simp add: out segment_def SEGB_def)
  with bs v len show ?thesis by auto
qed

theorem v1_end_offset_is_length_witness:
  "\<exists>out. segb_version1 entries_data = Inr out
     \<and> le_nat (segment out 0x00 0x04) = 216 \<and> length out = 216"
proof -
  from v1_end_offset_is_length [OF sample_v1]
  have "le_nat (segment
      [216, 0, 0, 0, 0, 0, 0, 0, 0, 0, 0, 0, 0, 0, 0, 0, 0, 0, 0, 0, 0, 0, 0, 0, 0, 0, 0, 0, 0,
       0, 0, 0, 0, 0, 0, 0, 0, 0, 0, 0, 0, 0, 0, 0, 0, 0, 0, 0, 0, 0, 0, 0, 83, 69, 71, 66] 0 4)
       = (216 :: nat)"
    by (simp add: segment_def)
  then show ?thesis
    unfolding sample_v1 by (simp add: segment_def)
qed


section \<open>The stored checksum\<close>

text \<open>
  C3. In both versions the checksum field of the entry of record \<open>i\<close>, read from the
  file as an unsigned 32-bit little-endian value, is the CRC-32 of the record's data
  bytes alone. The field is at offset \<open>0x18\<close> of a version 1 entry and at offset \<open>0\<close>
  of a version 2 entry; an entry starts after the header and the entries before it.
\<close>

theorem stored_checksum:
  assumes "i < length es" and "encode_utf8 (entry_text (es ! i)) = Inr data"
  shows "(segb_version1 es = Inr out1 \<longrightarrow>
            (\<exists>bs. list_all2 (\<lambda>e b. entry_v1 e = Inr b) es bs
               \<and> le_nat (segment out1 (0x38 + sum_list (map length (take i bs)) + 0x18) 4)
                   = unat (crc32 data)))
       \<and> (segb_version2 now es = Inr out2 \<longrightarrow>
            (\<exists>rs. list_all2 (\<lambda>e r. entry_v2 e = Inr r) es rs
               \<and> le_nat (segment out2 (0x20 + sum_list (map length (take i (map fst rs))) + 0) 4)
                   = unat (crc32 data)))"
proof (intro conjI impI)
  assume "segb_version1 es = Inr out1"
  then obtain bs where bs: "list_all2 (\<lambda>e b. entry_v1 e = Inr b) es bs"
    and out: "out1 = (le_bytes 4 (0x38 + sum_list (map length bs)) @ replicate 48 0 @ SEGB)
                      @ concat bs @ []"
    unfolding segb_version1_eq_Inr by auto
  have i: "i < length bs" using bs assms(1) by (simp add: list_all2_lengthD)
  have "entry_v1 (es ! i) = Inr (bs ! i)"
    using list_all2_nth [OF bs assms(1)] .
  then obtain ts where b: "bs ! i = entry_bytes_v1 ts data"
    using assms(2) by (auto simp: entry_v1_eq_Inr)
  have "0x18 + 4 \<le> length (bs ! i)"
    by (simp add: b length_entry_bytes_v1)
  from segment_in_concat [OF i this, of "le_bytes 4 (0x38 + sum_list (map length bs))
      @ replicate 48 0 @ SEGB" "[]"]
  have "segment out1 (0x38 + sum_list (map length (take i bs)) + 0x18) 4
          = segment (bs ! i) 0x18 4"
    by (simp add: out SEGB_def)
  then have "le_nat (segment out1 (0x38 + sum_list (map length (take i bs)) + 0x18) 4)
          = unat (crc32 data)"
    by (simp only: b checksum_entry_bytes_v1 le_nat_le_bytes_word32)
  with bs show "\<exists>bs. list_all2 (\<lambda>e b. entry_v1 e = Inr b) es bs
      \<and> le_nat (segment out1 (0x38 + sum_list (map length (take i bs)) + 0x18) 4)
          = unat (crc32 data)"
    by blast
next
  assume "segb_version2 now es = Inr out2"
  then obtain cts rs where rs: "list_all2 (\<lambda>e r. entry_v2 e = Inr r) es rs"
    and out: "out2 = (SEGB @ le_bytes 4 (length es) @ pack_d cts @ replicate 16 0)
                  @ concat (map fst rs) @ concat (map trailer_record (infos_from 0 rs))"
    unfolding segb_version2_eq_Inr by auto
  have i: "i < length (map fst rs)" using rs assms(1) by (simp add: list_all2_lengthD)
  have "entry_v2 (es ! i) = Inr (rs ! i)"
    using list_all2_nth [OF rs assms(1)] .
  then have "fst (rs ! i) = entry_bytes_v2 data"
    using assms(2) by (auto simp: entry_v2_eq_Inr)
  then have b: "map fst rs ! i = entry_bytes_v2 data"
    using i by simp
  have "0 + 4 \<le> length (map fst rs ! i)"
    by (simp add: b length_entry_bytes_v2)
  from segment_in_concat [OF i this, of "SEGB @ le_bytes 4 (length es) @ pack_d cts
      @ replicate 16 0" "concat (map trailer_record (infos_from 0 rs))"]
  have "segment out2 (0x20 + sum_list (map length (take i (map fst rs))) + 0) 4
          = segment (map fst rs ! i) 0 4"
    by (simp add: out SEGB_def)
  then have "le_nat (segment out2 (0x20 + sum_list (map length (take i (map fst rs))) + 0) 4)
          = unat (crc32 data)"
    by (simp only: b checksum_entry_bytes_v2 le_nat_le_bytes_word32)
  with rs show "\<exists>rs. list_all2 (\<lambda>e r. entry_v2 e = Inr r) es rs
      \<and> le_nat (segment out2 (0x20 + sum_list (map length (take i (map fst rs))) + 0) 4)
          = unat (crc32 data)"
    by blast
qed

theorem stored_checksum_witness:
  "\<exists>out1 out2 data.
     segb_version1 entries_data = Inr out1
     \<and> segb_version2 (utc_date 2024 1 1) entries_data = Inr out2
     \<and> encode_utf8 (entry_text (entries_data ! 1)) = Inr data
     \<and> le_nat (segment out1 (0x38 + 64 + 0x18) 4) = unat (crc32 data)
     \<and> le_nat (segment out2 (0x20 + 36 + 0) 4) = unat (crc32 data)"
proof -
  obtain out1 where o1: "segb_version1 entries_data = Inr out1"
    using sample_v1 by blast
  obtain out2 where o2: "segb_version2 (utc_date 2024 1 1) entries_data = Inr out2"
    using sample_v2 by blast
  have i: "1 < length entries_data"
    by (simp add: entries_data_def)
  obtain data where d: "encode_utf8 (entry_text (entries_data ! 1)) = Inr data"
    using sample_text_2 by (simp add: entries_data_def)
  from stored_checksum [OF i d, of out1 "utc_date 2024 1 1" out2] o1 o2
  obtain bs rs where bs: "list_all2 (\<lambda>e b. entry_v1 e = Inr b) entries_data bs"
    and c1: "le_nat (segment out1 (0x38 + sum_list (map length (take 1 bs)) + 0x18) 4)
               = unat (crc32 data)"
    and rs: "list_all2 (\<lambda>e r. entry_v2 e = Inr r) entries_data rs"
    and c2: "le_nat (segment out2 (0x20 + sum_list (map length (take 1 (map fst rs))) + 0) 4)
               = unat (crc32 data)"
    by blast
  have "sum_list (map length (take 1 bs)) = 64"
    using sample_sizes_v1 [OF bs] by (simp add: take_map [symmetric])
  moreover have "sum_list (map length (take 1 (map fst rs))) = 36"
    using sample_sizes_v2(1) [OF rs] by (simp add: take_map [symmetric])
  ultimately show ?thesis
    using o1 o2 d c1 c2 by auto
qed


section \<open>Padding\<close>

text \<open>
  C4. An entry is its unpadded bytes (header fields and data: \<open>32 + len(data)\<close> bytes in
  version 1, \<open>8 + len(data)\<close> in version 2) followed by
  \<open>(alignment - (unpadded size mod alignment)) mod alignment\<close> zero bytes, with alignment
  8 in version 1 and 4 in version 2. No byte is added when the unpadded size is a multiple
  of the alignment, and the padded size always is one.
\<close>

theorem entry_padding:
  assumes "encode_utf8 (entry_text ed) = Inr data"
  shows "(entry_v1 ed = Inr e1 \<longrightarrow>
            e1 = take (32 + length data) e1
                   @ replicate ((8 - ((32 + length data) mod 8)) mod 8) 0
            \<and> length (take (32 + length data) e1) = 32 + length data
            \<and> drop 32 (take (32 + length data) e1) = data
            \<and> length e1 mod 8 = 0
            \<and> ((32 + length data) mod 8 = 0 \<longrightarrow> length e1 = 32 + length data))
       \<and> (entry_v2 ed = Inr (e2, ts) \<longrightarrow>
            e2 = take (8 + length data) e2
                   @ replicate ((4 - ((8 + length data) mod 4)) mod 4) 0
            \<and> length (take (8 + length data) e2) = 8 + length data
            \<and> drop 8 (take (8 + length data) e2) = data
            \<and> length e2 mod 4 = 0
            \<and> ((8 + length data) mod 4 = 0 \<longrightarrow> length e2 = 8 + length data))"
proof (intro conjI impI)
  assume "entry_v1 ed = Inr e1"
  then obtain t where e1: "e1 = entry_bytes_v1 t data"
    using assms by (auto simp: entry_v1_eq_Inr)
  define u where "u = le_bytes 4 (length data) @ [1, 0, 0, 0] @ pack_d t @ pack_d t
       @ le_bytes 4 (unat (crc32 data)) @ replicate 4 0 @ data"
  have lu: "length u = 32 + length data"
    by (simp add: u_def)
  have eu: "e1 = u @ replicate ((8 - ((32 + length data) mod 8)) mod 8) 0"
    by (simp add: e1 entry_bytes_v1_def u_def)
  have tu: "take (32 + length data) e1 = u"
    using lu by (simp add: eu)
  show "e1 = take (32 + length data) e1
                   @ replicate ((8 - ((32 + length data) mod 8)) mod 8) 0"
    unfolding tu by (rule eu)
  show "length (take (32 + length data) e1) = 32 + length data"
    unfolding tu by (rule lu)
  show "drop 32 (take (32 + length data) e1) = data"
    unfolding tu by (simp add: u_def)
  have le: "length e1 = 32 + length data + (8 - ((32 + length data) mod 8)) mod 8"
    by (simp add: e1 length_entry_bytes_v1)
  show "length e1 mod 8 = 0"
    unfolding le using pad_mod [of 8 "32 + length data"] by simp
  show "length e1 = 32 + length data" if "(32 + length data) mod 8 = 0"
    unfolding le using that by simp
next
  assume "entry_v2 ed = Inr (e2, ts)"
  then have e2: "e2 = entry_bytes_v2 data"
    using assms by (auto simp: entry_v2_eq_Inr)
  define u where "u = le_bytes 4 (unat (crc32 data)) @ replicate 4 0 @ data"
  have lu: "length u = 8 + length data"
    by (simp add: u_def)
  have eu: "e2 = u @ replicate ((4 - ((8 + length data) mod 4)) mod 4) 0"
    by (simp add: e2 entry_bytes_v2_def u_def)
  have tu: "take (8 + length data) e2 = u"
    using lu by (simp add: eu)
  show "e2 = take (8 + length data) e2
                   @ replicate ((4 - ((8 + length data) mod 4)) mod 4) 0"
    unfolding tu by (rule eu)
  show "length (take (8 + length data) e2) = 8 + length data"
    unfolding tu by (rule lu)
  show "drop 8 (take (8 + length data) e2) = data"
    unfolding tu by (simp add: u_def)
  have le: "length e2 = 8 + length data + (4 - ((8 + length data) mod 4)) mod 4"
    by (simp add: e2 length_entry_bytes_v2)
  show "length e2 mod 4 = 0"
    unfolding le using pad_mod [of 4 "8 + length data"] by simp
  show "length e2 = 8 + length data" if "(8 + length data) mod 4 = 0"
    unfolding le using that by simp
qed


theorem entry_padding_witness:
  "\<exists>data e1 e2 ts.
     encode_utf8 (entry_text (entries_data ! 1)) = Inr data \<and> length data = 12
     \<and> entry_v1 (entries_data ! 1) = Inr e1
     \<and> e1 = take 44 e1 @ replicate 4 0 \<and> length e1 mod 8 = 0
     \<and> entry_v2 (entries_data ! 1) = Inr (e2, ts)
     \<and> e2 = take 20 e2 @ replicate 0 0 \<and> length e2 = 20"
proof -
  obtain data where d: "encode_utf8 (entry_text (entries_data ! 1)) = Inr data"
    and l: "length data = 12"
    using sample_text_2 by (simp add: entries_data_def)
  obtain e1 where e1: "entry_v1 (entries_data ! 1) = Inr e1"
    using sample_entry_v1_2 by (simp add: entries_data_def)
  obtain e2 ts where e2: "entry_v2 (entries_data ! 1) = Inr (e2, ts)"
    using sample_entry_v2_2 by (simp add: entries_data_def)
  from entry_padding [OF d, of e1 e2 ts] e1 e2 l
  have c: "e1 = take 44 e1 @ replicate 4 0" "length e1 mod 8 = 0"
     "e2 = take 20 e2 @ replicate 0 0" "length e2 = 20"
    by simp_all
  show ?thesis
    by (intro exI conjI) (rule d l e1 e2 c)+
qed


section \<open>Version 1: the entry header\<close>

text \<open>
  C5. A version 1 entry starts with a 32-byte header: the length of the data as an
  unsigned 32-bit little-endian integer, the state \<open>1\<close> as a signed 32-bit integer, the
  timestamp twice as a little-endian binary64, the CRC-32 of the data as an unsigned
  32-bit integer, and four zero bytes; the data follow. The timestamp is the float
  \<open>get_timestamp\<close> computes: the number of seconds from 2001-01-01T00:00:00 UTC to the
  record's date, negative for earlier dates, rounded to binary64 (relative error at
  most \<open>2^-53\<close>).
\<close>

theorem v1_entry_header_fields:
  assumes "entry_v1 ed = Inr entry"
  shows "\<exists>ts data.
           get_timestamp (entry_date ed) = Inr ts \<and> encode_utf8 (entry_text ed) = Inr data
         \<and> segment entry 0x00 0x20 =
               le_bytes 4 (length data) @ [1, 0, 0, 0] @ pack_d ts @ pack_d ts
                 @ le_bytes 4 (unat (crc32 data)) @ [0, 0, 0, 0]
         \<and> le_nat (segment entry 0x00 4) = length data
         \<and> Inr (segment entry 0x04 4) = pack_i 1
         \<and> le_nat (segment entry 0x08 8) = unat ts
         \<and> le_nat (segment entry 0x10 8) = unat ts
         \<and> le_nat (segment entry 0x18 4) = unat (crc32 data)
         \<and> segment entry 0x1C 4 = [0, 0, 0, 0]
         \<and> segment entry 0x20 (length data) = data
         \<and> \<bar>f64_value ts - seconds_since_2001 (entry_date ed)\<bar>
               \<le> \<bar>seconds_since_2001 (entry_date ed)\<bar> / 2 ^ 53"
proof -
  from assms obtain ts data where ts: "get_timestamp (entry_date ed) = Inr ts"
    and d: "encode_utf8 (entry_text ed) = Inr data" and l: "length data < 2 ^ 32"
    and e: "entry = entry_bytes_v1 ts data"
    unfolding entry_v1_eq_Inr by blast
  have "segment entry 0x00 0x20 =
               le_bytes 4 (length data) @ [1, 0, 0, 0] @ pack_d ts @ pack_d ts
                 @ le_bytes 4 (unat (crc32 data)) @ [0, 0, 0, 0]"
    unfolding e by (simp add: header_entry_bytes_v1 replicate_numeral)
  moreover have "le_nat (segment entry 0x00 4) = length data"
    unfolding e using l by (simp add: fields_entry_bytes_v1 le_nat_le_bytes)
  moreover have "Inr (segment entry 0x04 4) = pack_i 1"
    unfolding e by (simp add: fields_entry_bytes_v1 pack_i_1)
  moreover have "le_nat (segment entry 0x08 8) = unat ts"
    unfolding e by (simp add: fields_entry_bytes_v1 le_nat_pack_d)
  moreover have "le_nat (segment entry 0x10 8) = unat ts"
    unfolding e by (simp add: fields_entry_bytes_v1 le_nat_pack_d)
  moreover have "le_nat (segment entry 0x18 4) = unat (crc32 data)"
    unfolding e by (simp only: checksum_entry_bytes_v1 le_nat_le_bytes_word32)
  moreover have "segment entry 0x1C 4 = [0, 0, 0, 0]"
    unfolding e by (simp add: fields_entry_bytes_v1)
  moreover have "segment entry 0x20 (length data) = data"
    unfolding e by (simp add: fields_entry_bytes_v1)
  moreover note get_timestamp_accuracy [OF ts]
  ultimately show ?thesis using ts d by blast
qed


theorem v1_entry_header_fields_witness:
  "\<exists>entry. entry_v1 (entries_data ! 0) = Inr entry
     \<and> segment entry 0x00 0x20 =
           [25, 0, 0, 0, 1, 0, 0, 0, 0, 0, 0, 0, 37, 166, 166, 65,
            0, 0, 0, 0, 37, 166, 166, 65, 36, 159, 95, 41, 0, 0, 0, 0]
     \<and> le_nat (segment entry 0x00 4) = 25"
proof -
  let ?ed = "entries_data ! 0"
  obtain entry where e: "entry_v1 ?ed = Inr entry"
    using sample_entry_v1_1 by (simp add: entries_data_def)
  from v1_entry_header_fields [OF e] obtain ts data
    where ts: "get_timestamp (entry_date ?ed) = Inr ts"
      and d: "encode_utf8 (entry_text ?ed) = Inr data"
      and h: "segment entry 0x00 0x20 =
               le_bytes 4 (length data) @ [1, 0, 0, 0] @ pack_d ts @ pack_d ts
                 @ le_bytes 4 (unat (crc32 data)) @ [0, 0, 0, 0]"
      and l: "le_nat (segment entry 0x00 4) = length data"
    by blast
  have ts': "ts = 4730651136443285504"
    using ts sample_timestamp_1 by (simp add: entries_data_def)
  have d': "data = [72, 101, 114, 101, 39, 115, 32, 116, 111, 32, 116, 104, 101, 32, 99, 114,
                    97, 122, 121, 32, 111, 110, 101, 115, 46]"
    using d sample_text_1 by (simp add: entries_data_def)
  have "segment entry 0x00 0x20 =
           [25, 0, 0, 0, 1, 0, 0, 0, 0, 0, 0, 0, 37, 166, 166, 65,
            0, 0, 0, 0, 37, 166, 166, 65, 36, 159, 95, 41, 0, 0, 0, 0]"
    unfolding h ts' unfolding d' sample_crc_1 by (simp add: pack_eval)
  moreover have "le_nat (segment entry 0x00 4) = 25"
    unfolding l d' by simp
  ultimately show ?thesis using e by blast
qed


section \<open>Version 2: the header\<close>

text \<open>
  C6. A version 2 file starts with a 32-byte header: the magic \<open>SEGB\<close>, the number of
  records as an unsigned 32-bit little-endian integer at offset 4, the creation timestamp
  as a little-endian binary64 at offset 8, and sixteen zero bytes. The creation timestamp
  is \<open>get_timestamp\<close> of the current time: the seconds since 2001-01-01T00:00:00 UTC,
  rounded to binary64.
\<close>

theorem v2_header_fields:
  assumes "segb_version2 now es = Inr out"
  shows "\<exists>cts. get_timestamp now = Inr cts
         \<and> 0x20 \<le> length out
         \<and> segment out 0x00 0x20 =
               map (\<lambda>c. word_of_nat (of_char c)) ''SEGB'' @ le_bytes 4 (length es)
                 @ pack_d cts @ replicate 16 0
         \<and> segment out 0x00 4 = map (\<lambda>c. word_of_nat (of_char c)) ''SEGB''
         \<and> le_nat (segment out 0x04 4) = length es
         \<and> le_nat (segment out 0x08 8) = unat cts
         \<and> segment out 0x10 0x10 = replicate 16 0
         \<and> \<bar>f64_value cts - seconds_since_2001 now\<bar> \<le> \<bar>seconds_since_2001 now\<bar> / 2 ^ 53"
proof -
  from segb_version2_layout [OF assms] obtain cts rs
    where cts: "get_timestamp now = Inr cts" and n: "length es < 2 ^ 32"
      and out: "out = (SEGB @ le_bytes 4 (length es) @ pack_d cts @ replicate 16 0)
                      @ concat (map fst rs) @ concat (map trailer_record (infos_from 0 rs))"
      and len: "length out = 0x20 + sum_list (map length (map fst rs)) + 16 * length es"
    by blast
  have magic: "map (\<lambda>c. word_of_nat (of_char c)) ''SEGB'' = SEGB"
    by (simp add: SEGB_def)
  have "segment out 0x00 0x20 = SEGB @ le_bytes 4 (length es) @ pack_d cts @ replicate 16 0"
    unfolding out by (simp add: segment_def SEGB_def)
  moreover have "segment out 0x00 4 = SEGB"
    unfolding out by (simp add: segment_def SEGB_def)
  moreover have "segment out 0x04 4 = le_bytes 4 (length es)"
    unfolding out by (simp add: segment_def SEGB_def)
  then have "le_nat (segment out 0x04 4) = length es"
    using n by (simp add: le_nat_le_bytes)
  moreover have "segment out 0x08 8 = pack_d cts"
    unfolding out by (simp add: segment_def SEGB_def)
  then have "le_nat (segment out 0x08 8) = unat cts"
    by (simp add: le_nat_pack_d)
  moreover have "segment out 0x10 0x10 = replicate 16 0"
    unfolding out by (simp add: segment_def SEGB_def)
  moreover have "0x20 \<le> length out" using len by simp
  moreover note get_timestamp_accuracy [OF cts]
  ultimately show ?thesis using cts unfolding magic by blast
qed

theorem v2_header_fields_witness:
  "\<exists>out. segb_version2 (utc_date 2024 1 1) entries_data = Inr out
     \<and> segment out 0x00 0x20 =
           [83, 69, 71, 66, 3, 0, 0, 0, 0, 0, 0, 0, 28, 161, 197, 65,
            0, 0, 0, 0, 0, 0, 0, 0, 0, 0, 0, 0, 0, 0, 0, 0]
     \<and> le_nat (segment out 0x04 4) = 3"
proof -
  obtain out where o: "segb_version2 (utc_date 2024 1 1) entries_data = Inr out"
    using sample_v2 by blast
  from v2_header_fields [OF o] obtain cts
    where cts: "get_timestamp (utc_date 2024 1 1) = Inr cts"
      and h: "segment out 0x00 0x20 =
               map (\<lambda>c. word_of_nat (of_char c)) ''SEGB'' @ le_bytes 4 (length entries_data)
                 @ pack_d cts @ replicate 16 0"
      and c: "le_nat (segment out 0x04 4) = length entries_data"
    by blast
  have cts': "cts = 4739371324508471296"
    using cts sample_now by simp
  have "segment out 0x00 0x20 =
           [83, 69, 71, 66, 3, 0, 0, 0, 0, 0, 0, 0, 28, 161, 197, 65,
            0, 0, 0, 0, 0, 0, 0, 0, 0, 0, 0, 0, 0, 0, 0, 0]"
    unfolding h cts' by (simp add: entries_data_def pack_eval)
  moreover have "le_nat (segment out 0x04 4) = 3"
    unfolding c by (simp add: entries_data_def)
  ultimately show ?thesis using o by blast
qed


section \<open>Version 2: the trailer\<close>

text \<open>
  C7. A version 2 file is the 32-byte header, the entries of the records in order, and
  a trailer that is exactly the last \<open>16 * n\<close> bytes for \<open>n\<close> records. Trailer record
  \<open>i\<close> belongs to record \<open>i\<close>: its offset as an unsigned 32-bit little-endian
  integer, the state \<open>1\<close> as a signed 32-bit integer, and the timestamp of record \<open>i\<close>
  as a little-endian binary64.
\<close>

theorem v2_trailer_records:
  assumes "segb_version2 now es = Inr out"
  shows "\<exists>rs. list_all2 (\<lambda>e r. entry_v2 e = Inr r) es rs
         \<and> length out = 0x20 + length (concat (map fst rs)) + 16 * length es
         \<and> segment out 0x20 (length (concat (map fst rs))) = concat (map fst rs)
         \<and> trailer_start out (length es) = 0x20 + length (concat (map fst rs))
         \<and> length (drop (trailer_start out (length es)) out) = 16 * length es
         \<and> (\<forall>i < length es.
               get_timestamp (entry_date (es ! i)) = Inr (snd (rs ! i))
               \<and> segment out (trailer_start out (length es) + 16 * i) 16 =
                   le_bytes 4 (sum_list (map length (take i (map fst rs)))) @ [1, 0, 0, 0]
                     @ pack_d (snd (rs ! i))
               \<and> Inr (segment out (trailer_start out (length es) + 16 * i + 4) 4) = pack_i 1
               \<and> le_nat (segment out (trailer_start out (length es) + 16 * i + 8) 8)
                   = unat (snd (rs ! i)))"
proof -
  from segb_version2_layout [OF assms] obtain cts rs
    where rs: "list_all2 (\<lambda>e r. entry_v2 e = Inr r) es rs"
      and out: "out = (SEGB @ le_bytes 4 (length es) @ pack_d cts @ replicate 16 0)
                      @ concat (map fst rs) @ concat (map trailer_record (infos_from 0 rs))"
      and len: "length out = 0x20 + sum_list (map length (map fst rs)) + 16 * length es"
      and ts: "trailer_start out (length es) = 0x20 + sum_list (map length (map fst rs))"
      and rec: "\<forall>i < length es.
                 segment out (trailer_start out (length es) + 16 * i) 16 =
                   le_bytes 4 (sum_list (map length (take i (map fst rs)))) @ [1, 0, 0, 0]
                     @ pack_d (snd (rs ! i))"
    by blast
  have lc: "length (concat (map fst rs)) = sum_list (map length (map fst rs))"
    by (rule length_concat_sum)
  have data: "segment out 0x20 (length (concat (map fst rs))) = concat (map fst rs)"
    unfolding out by (simp add: segment_def SEGB_def)
  have tl: "length (drop (trailer_start out (length es)) out) = 16 * length es"
    by (simp add: ts len)
  have per: "get_timestamp (entry_date (es ! i)) = Inr (snd (rs ! i))
               \<and> segment out (trailer_start out (length es) + 16 * i) 16 =
                   le_bytes 4 (sum_list (map length (take i (map fst rs)))) @ [1, 0, 0, 0]
                     @ pack_d (snd (rs ! i))
               \<and> Inr (segment out (trailer_start out (length es) + 16 * i + 4) 4) = pack_i 1
               \<and> le_nat (segment out (trailer_start out (length es) + 16 * i + 8) 8)
                   = unat (snd (rs ! i))"
    if i: "i < length es" for i
  proof -
    let ?t = "trailer_start out (length es) + 16 * i"
    let ?r = "le_bytes 4 (sum_list (map length (take i (map fst rs)))) @ [1, 0, 0, 0]
                     @ pack_d (snd (rs ! i))"
    from rec i have r: "segment out ?t 16 = ?r" by blast
    have "entry_v2 (es ! i) = Inr (rs ! i)"
      using list_all2_nth [OF rs i] .
    then have g: "get_timestamp (entry_date (es ! i)) = Inr (snd (rs ! i))"
      by (auto simp: entry_v2_eq_Inr)
    have sub: "segment out (?t + a) b = segment (segment out ?t 16) a b" if "a + b \<le> 16" for a b
      using that by (simp add: segment_def take_drop add.commute)
    have "segment out (?t + 4) 4 = [1, 0, 0, 0]"
      unfolding sub [of 4 4, simplified] r by (simp add: segment_def)
    then have s: "Inr (segment out (?t + 4) 4) = pack_i 1"
      by (simp add: pack_i_1)
    have "segment out (?t + 8) 8 = pack_d (snd (rs ! i))"
      unfolding sub [of 8 8, simplified] r by (simp add: segment_def)
    then have t: "le_nat (segment out (?t + 8) 8) = unat (snd (rs ! i))"
      by (simp add: le_nat_pack_d)
    from g r s t show ?thesis by blast
  qed
  show ?thesis
    using rs len ts data tl per unfolding lc [symmetric]
    by (intro exI [of _ rs]) simp
qed


theorem v2_trailer_records_witness:
  "\<exists>out. segb_version2 (utc_date 2024 1 1) entries_data = Inr out
     \<and> length out = 156 \<and> trailer_start out 3 = 108
     \<and> segment out (108 + 16 * 1) 16 = [36, 0, 0, 0, 1, 0, 0, 0, 0, 0, 0, 0, 6, 105, 168, 65]"
proof -
  obtain out where o: "segb_version2 (utc_date 2024 1 1) entries_data = Inr out"
    using sample_v2 by blast
  have n: "length entries_data = 3" by (simp add: entries_data_def)
  from v2_trailer_records [OF o] obtain rs
    where rs: "list_all2 (\<lambda>e r. entry_v2 e = Inr r) entries_data rs"
      and len: "length out = 0x20 + length (concat (map fst rs)) + 16 * length entries_data"
      and ts: "trailer_start out (length entries_data) = 0x20 + length (concat (map fst rs))"
      and rec: "\<forall>i < length entries_data.
               segment out (trailer_start out (length entries_data) + 16 * i) 16 =
                   le_bytes 4 (sum_list (map length (take i (map fst rs)))) @ [1, 0, 0, 0]
                     @ pack_d (snd (rs ! i))"
    by blast
  note sz = sample_sizes_v2 [OF rs]
  have lc: "length (concat (map fst rs)) = 76"
    by (simp only: length_concat_sum sz) simp
  have lrs: "length rs = 3"
    using rs n by (simp add: list_all2_lengthD)
  have "snd (rs ! 1) = map snd rs ! 1" using lrs by simp
  then have t1: "snd (rs ! 1) = 4731146883043426304" by (simp add: sz)
  have "take 1 (map length (map fst rs)) = [36]"
    by (simp only: sz) simp
  then have o1: "sum_list (map length (take 1 (map fst rs))) = 36"
    by (simp only: take_map) simp
  have "1 < length entries_data" using n by simp
  from rec [rule_format, OF this]
  have "segment out (trailer_start out (length entries_data) + 16 * 1) 16 =
      le_bytes 4 (sum_list (map length (take 1 (map fst rs)))) @ [1, 0, 0, 0]
        @ pack_d (snd (rs ! 1))" .
  moreover have ts3: "trailer_start out 3 = 108" using ts lc n by simp
  ultimately have "segment out (108 + 16 * 1) 16
      = [36, 0, 0, 0, 1, 0, 0, 0, 0, 0, 0, 0, 6, 105, 168, 65]"
    unfolding n o1 t1 by (simp add: pack_eval)
  moreover have "length out = 156" using len lc n by simp
  ultimately show ?thesis using o ts3 by blast
qed


section \<open>Version 2: the offsets in the trailer\<close>

text \<open>
  C8. The offset in trailer record \<open>i\<close> is the sum of the (padded) sizes of the entries
  before entry \<open>i\<close>; it is relative to the first byte after the 32-byte header, where
  entry \<open>i\<close> is found; the first offset is 0.
\<close>

theorem v2_offsets_relative:
  assumes "segb_version2 now es = Inr out"
  shows "\<exists>rs. list_all2 (\<lambda>e r. entry_v2 e = Inr r) es rs
         \<and> (\<forall>i < length es.
               trailer_offset out (length es) i
                 = sum_list (map length (take i (map fst rs)))
               \<and> segment out (0x20 + trailer_offset out (length es) i)
                     (length (fst (rs ! i))) = fst (rs ! i))
         \<and> (0 < length es \<longrightarrow> trailer_offset out (length es) 0 = 0)"
proof -
  from trailer_offset_value [OF assms] obtain rs
    where rs: "list_all2 (\<lambda>e r. entry_v2 e = Inr r) es rs"
      and per: "\<forall>i < length es.
                 trailer_offset out (length es) i
                   = sum_list (map length (take i (map fst rs)))
                 \<and> segment out (0x20 + sum_list (map length (take i (map fst rs))))
                       (length (fst (rs ! i))) = fst (rs ! i)"
    by blast
  have "trailer_offset out (length es) 0 = 0" if "0 < length es"
    using per that by simp
  then show ?thesis
    using rs per by (intro exI [of _ rs]) simp
qed

theorem v2_offsets_relative_witness:
  "\<exists>out. segb_version2 (utc_date 2024 1 1) entries_data = Inr out
     \<and> trailer_offset out 3 0 = 0 \<and> trailer_offset out 3 1 = 36
     \<and> trailer_offset out 3 2 = 56"
proof -
  obtain out where o: "segb_version2 (utc_date 2024 1 1) entries_data = Inr out"
    using sample_v2 by blast
  have n: "length entries_data = 3" by (simp add: entries_data_def)
  from v2_offsets_relative [OF o] obtain rs
    where rs: "list_all2 (\<lambda>e r. entry_v2 e = Inr r) entries_data rs"
      and per: "\<forall>i < length entries_data.
               trailer_offset out (length entries_data) i
                 = sum_list (map length (take i (map fst rs)))"
    by blast
  have sz: "map length (map fst rs) = [36, 20, 20]"
    by (rule sample_sizes_v2 [OF rs])
  have off: "trailer_offset out 3 i = sum_list (take i [36, 20, 20])" if "i < 3" for i
    using per that unfolding n by (simp only: take_map sz [symmetric])
  have "trailer_offset out 3 0 = 0" using off [of 0] by simp
  moreover have "trailer_offset out 3 1 = 36" using off [of 1] by simp
  moreover have "trailer_offset out 3 2 = 56" using off [of 2] by (simp add: numeral_2_eq_2)
  ultimately show ?thesis using o by blast
qed

section \<open>Version 2: offsets grow by at least eight\<close>

text \<open>
  C10. In a version 2 file the offsets in the trailer are strictly increasing: a later
  offset exceeds an earlier one by at least 8, the size of the checksum and reserved
  bytes of an entry, also for empty data. Every entry, the last one included, starts at
  least 8 bytes before the trailer. So the gap from an entry to the next one, or to the
  trailer, leaves at least the 8 bytes that precede the data; the gap is exactly these
  8 bytes, the data and the padding of at most 3 bytes.
\<close>

theorem v2_offsets_increasing:
  assumes "segb_version2 now es = Inr out"
  shows "(\<forall>i j. i < j \<and> j < length es \<longrightarrow>
            trailer_offset out (length es) i + 8 \<le> trailer_offset out (length es) j)
       \<and> (\<forall>i < length es.
            0x20 + trailer_offset out (length es) i + 8 \<le> trailer_start out (length es))
       \<and> (\<forall>i < length es. \<forall>d. encode_utf8 (entry_text (es ! i)) = Inr d \<longrightarrow>
            (if Suc i < length es then trailer_offset out (length es) (Suc i)
             else trailer_start out (length es) - 0x20) - trailer_offset out (length es) i
              = 8 + length d + (4 - (8 + length d) mod 4) mod 4)"
proof -
  from trailer_offset_value [OF assms] obtain rs
    where rs: "list_all2 (\<lambda>e r. entry_v2 e = Inr r) es rs"
      and ts: "trailer_start out (length es) = 0x20 + sum_list (map length (map fst rs))"
      and per: "\<forall>i < length es.
                 trailer_offset out (length es) i
                   = sum_list (map length (take i (map fst rs)))"
    by blast
  define ns where "ns = map length (map fst rs)"
  have len: "length ns = length es"
    using rs by (simp add: ns_def list_all2_lengthD)
  have off: "trailer_offset out (length es) i = sum_list (take i ns)" if "i < length es" for i
    using per that by (simp add: ns_def take_map)
  have big: "8 \<le> ns ! i" if "i < length es" for i
  proof -
    have "entry_v2 (es ! i) = Inr (rs ! i)" using list_all2_nth [OF rs that] .
    from entry_v2_size [OF this] show ?thesis
      using that len by (simp add: ns_def)
  qed
  have step: "sum_list (take i ns) + 8 \<le> sum_list (take (Suc i) ns)" if "i < length es" for i
    using sum_list_take_Suc [of i ns] big [OF that] that len by simp
  have inc: "trailer_offset out (length es) i + 8 \<le> trailer_offset out (length es) j"
    if "i < j" "j < length es" for i j
  proof -
    have "sum_list (take i ns) + 8 \<le> sum_list (take (Suc i) ns)"
      using step that by simp
    also have "\<dots> \<le> sum_list (take j ns)"
      using that by (intro sum_list_take_mono) simp
    finally show ?thesis using off that by simp
  qed
  have last: "0x20 + trailer_offset out (length es) i + 8 \<le> trailer_start out (length es)"
    if "i < length es" for i
  proof -
    have "sum_list (take i ns) + 8 \<le> sum_list (take (Suc i) ns)"
      using step that by simp
    also have "\<dots> \<le> sum_list ns" by (rule sum_list_take_le)
    finally show ?thesis using off [OF that] by (simp add: ts ns_def)
  qed
  have gap: "(if Suc i < length es then trailer_offset out (length es) (Suc i)
             else trailer_start out (length es) - 0x20) - trailer_offset out (length es) i
              = 8 + length d + (4 - (8 + length d) mod 4) mod 4"
    if i: "i < length es" and d: "encode_utf8 (entry_text (es ! i)) = Inr d" for i d
  proof -
    have "entry_v2 (es ! i) = Inr (rs ! i)" using list_all2_nth [OF rs i] .
    then have "fst (rs ! i) = entry_bytes_v2 d"
      using d by (auto simp: entry_v2_eq_Inr)
    then have sz: "ns ! i = 8 + length d + (4 - (8 + length d) mod 4) mod 4"
      using i len by (simp add: ns_def length_entry_bytes_v2)
    have nxt: "(if Suc i < length es then trailer_offset out (length es) (Suc i)
             else trailer_start out (length es) - 0x20) = sum_list (take (Suc i) ns)"
    proof (cases "Suc i < length es")
      case True
      then show ?thesis using off [of "Suc i"] by simp
    next
      case False
      with i have "Suc i = length ns" using len by simp
      then have "take (Suc i) ns = ns" by simp
      then show ?thesis using False by (simp add: ts ns_def)
    qed
    show ?thesis
      unfolding nxt off [OF i] using sum_list_take_Suc [of i ns] i len sz by simp
  qed
  from inc last gap show ?thesis by blast
qed

theorem v2_offsets_increasing_witness:
  "\<exists>out. segb_version2 (utc_date 2024 1 1) [\<lparr>entry_text = [], entry_date = utc_date 2007 1 9\<rparr>,
        \<lparr>entry_text = [], entry_date = utc_date 2007 1 9\<rparr>] = Inr out
     \<and> trailer_offset out 2 0 + 8 \<le> trailer_offset out 2 1
     \<and> 0x20 + trailer_offset out 2 1 + 8 \<le> trailer_start out 2"
proof -
  let ?e = "\<lparr>entry_text = [], entry_date = utc_date 2007 1 9\<rparr>"
  have e: "entry_v2 ?e = Inr (entry_bytes_v2 [], 4730651136443285504)"
    by (simp add: entry_v2_unfold sample_timestamp_1)
  have l: "length (entry_bytes_v2 []) = 8"
    by (simp add: length_entry_bytes_v2)
  let ?rs = "[(entry_bytes_v2 [], 4730651136443285504 :: f64),
          (entry_bytes_v2 [], 4730651136443285504)]"
  have "segb_version2 (utc_date 2024 1 1) [?e, ?e] =
      Inr (SEGB @ le_bytes 4 (length [?e, ?e]) @ pack_d 4739371324508471296 @ replicate 16 0
             @ concat (map fst ?rs) @ concat (map trailer_record (infos_from 0 ?rs)))"
    unfolding segb_version2_eq_Inr
    by (intro exI [of _ ?rs] exI [of _ 4739371324508471296])
      (simp add: sample_now e infos_from_Cons l)
  then obtain out where o: "segb_version2 (utc_date 2024 1 1) [?e, ?e] = Inr out" by blast
  have n: "length [?e, ?e] = 2" by simp
  note t = v2_offsets_increasing [OF o, unfolded n]
  have i: "(0::nat) < 1 \<and> (1::nat) < 2" by simp
  from t i have "trailer_offset out 2 0 + 8 \<le> trailer_offset out 2 1"
    by blast
  moreover from t i have "0x20 + trailer_offset out 2 1 + 8 \<le> trailer_start out 2"
    by blast
  ultimately show ?thesis using o by blast
qed


section \<open>What depends on the clock\<close>

text \<open>
  C9. The version 1 file that a run writes does not depend on the clock: two runs on the
  same records, at any two times, write the same \<open>segb_version1.bin\<close> (or both write
  none). Two version 2 files of the same records, made at two times, have the same
  length and agree on every byte outside \<open>[0x08:0x10)\<close>; those eight bytes are the
  creation timestamp, packed from \<open>get_timestamp\<close> of the clock.
\<close>

theorem clock_only_in_creation_timestamp:
  "map_of (fst (generate_test_files now1 es)) ''segb_version1.bin''
     = map_of (fst (generate_test_files now2 es)) ''segb_version1.bin''
   \<and> (segb_version2 now1 es = Inr out1 \<and> segb_version2 now2 es = Inr out2 \<longrightarrow>
        length out1 = length out2
        \<and> segment out1 0x00 0x08 = segment out2 0x00 0x08
        \<and> drop 0x10 out1 = drop 0x10 out2
        \<and> (\<exists>c1 c2. get_timestamp now1 = Inr c1 \<and> get_timestamp now2 = Inr c2
              \<and> segment out1 0x08 0x08 = pack_d c1 \<and> segment out2 0x08 0x08 = pack_d c2))"
proof (intro conjI impI)
  show "map_of (fst (generate_test_files now1 es)) ''segb_version1.bin''
     = map_of (fst (generate_test_files now2 es)) ''segb_version1.bin''"
    by (simp add: generate_test_files_def split: sum.splits)
next
  assume a: "segb_version2 now1 es = Inr out1 \<and> segb_version2 now2 es = Inr out2"
  from a obtain c1 rs1 where c1: "get_timestamp now1 = Inr c1"
    and rs1: "list_all2 (\<lambda>e r. entry_v2 e = Inr r) es rs1"
    and o1: "out1 = SEGB @ le_bytes 4 (length es) @ pack_d c1 @ replicate 16 0
                  @ concat (map fst rs1) @ concat (map trailer_record (infos_from 0 rs1))"
    unfolding segb_version2_eq_Inr by blast
  from a obtain c2 rs2 where c2: "get_timestamp now2 = Inr c2"
    and rs2: "list_all2 (\<lambda>e r. entry_v2 e = Inr r) es rs2"
    and o2: "out2 = SEGB @ le_bytes 4 (length es) @ pack_d c2 @ replicate 16 0
                  @ concat (map fst rs2) @ concat (map trailer_record (infos_from 0 rs2))"
    unfolding segb_version2_eq_Inr by blast
  have rs: "rs2 = rs1" using list_all2_Inr_unique [OF rs2 rs1] .
  show "length out1 = length out2"
    by (simp add: o1 o2 rs)
  show "segment out1 0x00 0x08 = segment out2 0x00 0x08"
    by (simp add: o1 o2 segment_def SEGB_def)
  show "drop 0x10 out1 = drop 0x10 out2"
    by (simp add: o1 o2 rs SEGB_def)
  have "segment out1 0x08 0x08 = pack_d c1"
    by (simp add: o1 segment_def SEGB_def)
  moreover have "segment out2 0x08 0x08 = pack_d c2"
    by (simp add: o2 segment_def SEGB_def)
  ultimately show "\<exists>c1 c2. get_timestamp now1 = Inr c1 \<and> get_timestamp now2 = Inr c2
              \<and> segment out1 0x08 0x08 = pack_d c1 \<and> segment out2 0x08 0x08 = pack_d c2"
    using c1 c2 by blast
qed

theorem clock_only_in_creation_timestamp_witness:
  "\<exists>out1 out2.
     segb_version2 (utc_date 2024 1 1) entries_data = Inr out1
     \<and> segb_version2 (utc_date 2025 1 1) entries_data = Inr out2
     \<and> length out1 = length out2
     \<and> segment out1 0x00 0x08 = segment out2 0x00 0x08
     \<and> drop 0x10 out1 = drop 0x10 out2
     \<and> segment out1 0x08 0x08 = [0, 0, 0, 0, 28, 161, 197, 65]
     \<and> segment out2 0x08 0x08 = [0, 0, 0, 128, 94, 146, 198, 65]"
proof -
  obtain out1 where o1: "segb_version2 (utc_date 2024 1 1) entries_data = Inr out1"
    using sample_v2 by blast
  obtain out2 where o2: "segb_version2 (utc_date 2025 1 1) entries_data = Inr out2"
    using segb_version2_other_clock [OF o1 sample_now_2] by blast
  from clock_only_in_creation_timestamp [of "utc_date 2024 1 1" entries_data
      "utc_date 2025 1 1" out1 out2] o1 o2
  obtain c1 c2 where l: "length out1 = length out2"
    and h: "segment out1 0x00 0x08 = segment out2 0x00 0x08"
    and d: "drop 0x10 out1 = drop 0x10 out2"
    and c1: "get_timestamp (utc_date 2024 1 1) = Inr c1"
    and c2: "get_timestamp (utc_date 2025 1 1) = Inr c2"
    and s1: "segment out1 0x08 0x08 = pack_d c1" and s2: "segment out2 0x08 0x08 = pack_d c2"
    by blast
  have "c1 = 4739371324508471296" using c1 sample_now by simp
  then have t1: "segment out1 0x08 0x08 = [0, 0, 0, 0, 28, 161, 197, 65]"
    unfolding s1 by (simp add: pack_eval)
  have "c2 = 4739636592426090496" using c2 sample_now_2 by simp
  then have t2: "segment out2 0x08 0x08 = [0, 0, 0, 128, 94, 146, 198, 65]"
    unfolding s2 by (simp add: pack_eval)
  show ?thesis
    by (intro exI conjI) (rule o1 o2 l h d t1 t2)+
qed


section \<open>Round trip\<close>

text \<open>
  C1, as amended. Let \<open>ds\<close> be the data bytes of the records \<open>es\<close>. When the version 1
  generation succeeds, decoding its file yields exactly \<open>ds\<close>, in order. When the
  version 2 generation succeeds, decoding its file yields, in order, each record's data
  up to trailing zero bytes (\<open>data_read_v2\<close>), and exactly \<open>ds\<close> when no record's data
  end with a zero byte.
\<close>

theorem decode_encode_round_trip:
  assumes "list_all2 (\<lambda>e d. encode_utf8 (entry_text e) = Inr d) es ds"
  shows "(segb_version1 es = Inr out1 \<longrightarrow> round_trip_v1 es = Some ds)
       \<and> (segb_version2 now es = Inr out2 \<longrightarrow>
            round_trip_v2 now es = Some (map data_read_v2 ds))
       \<and> (segb_version2 now es = Inr out2 \<and> (\<forall>d \<in> set ds. d = [] \<or> last d \<noteq> 0) \<longrightarrow>
            round_trip_v2 now es = Some ds)"
proof (intro conjI impI)
  assume "segb_version1 es = Inr out1"
  then show "round_trip_v1 es = Some ds"
    using assms by (rule round_trip_v1_eq)
next
  assume "segb_version2 now es = Inr out2"
  then show "round_trip_v2 now es = Some (map data_read_v2 ds)"
    using assms by (rule round_trip_v2_eq)
next
  assume a: "segb_version2 now es = Inr out2 \<and> (\<forall>d \<in> set ds. d = [] \<or> last d \<noteq> 0)"
  then have "map data_read_v2 ds = ds"
    by (simp add: map_idI data_read_v2_id)
  with a round_trip_v2_eq [OF _ assms] show "round_trip_v2 now es = Some ds"
    by metis
qed

theorem decode_encode_round_trip_witness:
  "round_trip_v1 entries_data =
     Some [[72, 101, 114, 101, 39, 115, 32, 116, 111, 32, 116, 104, 101, 32, 99, 114, 97, 122,
            121, 32, 111, 110, 101, 115, 46],
           [84, 104, 101, 32, 109, 105, 115, 102, 105, 116, 115, 46],
           [84, 104, 101, 32, 114, 101, 98, 101, 108, 115, 46]]
   \<and> round_trip_v2 (utc_date 2024 1 1) entries_data =
     Some [[72, 101, 114, 101, 39, 115, 32, 116, 111, 32, 116, 104, 101, 32, 99, 114, 97, 122,
            121, 32, 111, 110, 101, 115, 46],
           [84, 104, 101, 32, 109, 105, 115, 102, 105, 116, 115, 46],
           [84, 104, 101, 32, 114, 101, 98, 101, 108, 115, 46]]"
proof -
  let ?ds = "[[72, 101, 114, 101, 39, 115, 32, 116, 111, 32, 116, 104, 101, 32, 99, 114, 97, 122,
            121, 32, 111, 110, 101, 115, 46],
           [84, 104, 101, 32, 109, 105, 115, 102, 105, 116, 115, 46],
           [84, 104, 101, 32, 114, 101, 98, 101, 108, 115, 46]] :: bytes list"
  have ds: "list_all2 (\<lambda>e d. encode_utf8 (entry_text e) = Inr d) entries_data ?ds"
    by (simp add: entries_data_def sample_text_1 sample_text_2 sample_text_3)
  obtain out1 where o1: "segb_version1 entries_data = Inr out1"
    using sample_v1 by blast
  obtain out2 where o2: "segb_version2 (utc_date 2024 1 1) entries_data = Inr out2"
    using sample_v2 by blast
  have nz: "\<forall>d \<in> set ?ds. d = [] \<or> last d \<noteq> 0"
    by simp
  from decode_encode_round_trip [OF ds, of out1 "utc_date 2024 1 1" out2] o1 o2 nz
  show ?thesis by blast
qed

theorem decode_encode_counterexample:
  "segb_version2 (utc_date 2024 1 1)
       [\<lparr>entry_text = [99, 55, 107, 112, 75, 72, 0], entry_date = utc_date 2007 1 9\<rparr>]
     = segb_version2 (utc_date 2024 1 1)
       [\<lparr>entry_text = [99, 55, 107, 112, 75, 72], entry_date = utc_date 2007 1 9\<rparr>]
   \<and> encode_utf8 [99, 55, 107, 112, 75, 72, 0] = Inr [99, 55, 107, 112, 75, 72, 0]
   \<and> encode_utf8 [99, 55, 107, 112, 75, 72] = Inr [99, 55, 107, 112, 75, 72]
   \<and> round_trip_v2 (utc_date 2024 1 1)
       [\<lparr>entry_text = [99, 55, 107, 112, 75, 72, 0], entry_date = utc_date 2007 1 9\<rparr>]
     = Some [[99, 55, 107, 112, 75, 72]]"
proof -
  let ?e1 = "\<lparr>entry_text = [99, 55, 107, 112, 75, 72, 0], entry_date = utc_date 2007 1 9\<rparr>"
  let ?e2 = "\<lparr>entry_text = [99, 55, 107, 112, 75, 72], entry_date = utc_date 2007 1 9\<rparr>"
  let ?b = "[255, 255, 255, 255, 0, 0, 0, 0, 99, 55, 107, 112, 75, 72, 0, 0] :: bytes"
  have d1: "encode_utf8 [99, 55, 107, 112, 75, 72, 0] = Inr [99, 55, 107, 112, 75, 72, 0]"
    by (simp add: utf8_char_def)
  have d2: "encode_utf8 [99, 55, 107, 112, 75, 72] = Inr [99, 55, 107, 112, 75, 72]"
    by (simp add: utf8_char_def)
  have c1: "crc32 [99, 55, 107, 112, 75, 72, 0] = 4294967295"
    by (simp add: crc32_eval)
  have c2: "crc32 [99, 55, 107, 112, 75, 72] = 4294967295"
    by (simp add: crc32_eval)
  have e1: "entry_v2 ?e1 = Inr (?b, 4730651136443285504)"
    by (simp add: entry_v2_unfold sample_timestamp_1 utf8_char_def entry_bytes_v2_def c1
        pack_eval)
  have e2: "entry_v2 ?e2 = Inr (?b, 4730651136443285504)"
    by (simp add: entry_v2_unfold sample_timestamp_1 utf8_char_def entry_bytes_v2_def c2
        pack_eval)
  note f1 = segb_version2_single [OF e1 sample_now]
  note f2 = segb_version2_single [OF e2 sample_now]
  have same: "segb_version2 (utc_date 2024 1 1) [?e1] = segb_version2 (utc_date 2024 1 1) [?e2]"
    by (simp only: f1 f2)
  have "list_all2 (\<lambda>e d. encode_utf8 (entry_text e) = Inr d) [?e1]
          [[99, 55, 107, 112, 75, 72, 0]]"
    by (simp add: utf8_char_def)
  from round_trip_v2_eq [OF f1 this]
  have "round_trip_v2 (utc_date 2024 1 1) [?e1]
          = Some [data_read_v2 [99, 55, 107, 112, 75, 72, 0]]"
    by simp
  moreover have "data_read_v2 [99, 55, 107, 112, 75, 72, 0] = [99, 55, 107, 112, 75, 72]"
    by (simp add: data_read_v2_def strip_padding_def numeral_3_eq_3)
  ultimately have rt: "round_trip_v2 (utc_date 2024 1 1) [?e1] = Some [[99, 55, 107, 112, 75, 72]]"
    by simp
  show ?thesis
    by (intro conjI) (rule same d1 d2 rt)+
qed

end
